theory Spec2Isabelle
  imports Complex_Main "HOL-Library.Multiset"
begin

section \<open>Numbers and containers of the C++ code\<close>

text \<open>
  A finite \<open>double\<close> or \<open>float\<close> is the real number it denotes, and a zero is the positive
  zero. Where an operation of the source can leave the finite numbers (a quotient by
  zero, an overflow, the constant \<open>NAN\<close>) its result has the type \<open>double\<close> below, whose
  operations follow IEEE 754 on the special values. The operations \<open>dmul\<close> and \<open>ddiv\<close> give
  the exact product and quotient; they serve the lidar estimator and the mean distance
  of the match filter. The camera estimator and the shrunk rectangle round the result of
  every operation, with the functions that follow them.
\<close>

datatype double = Fin real | PInf | NInf | NaN

fun dneg :: "double \<Rightarrow> double" where
  "dneg (Fin a) = Fin (- a)"
| "dneg PInf = NInf"
| "dneg NInf = PInf"
| "dneg NaN = NaN"

fun dinf :: "bool \<Rightarrow> double" where
  "dinf positive = (if positive then PInf else NInf)"

fun dmul :: "double \<Rightarrow> double \<Rightarrow> double" where
  "dmul (Fin a) (Fin b) = Fin (a * b)"
| "dmul NaN _ = NaN"
| "dmul _ NaN = NaN"
| "dmul (Fin a) PInf = (if a = 0 then NaN else dinf (0 < a))"
| "dmul (Fin a) NInf = (if a = 0 then NaN else dinf (a < 0))"
| "dmul PInf (Fin b) = (if b = 0 then NaN else dinf (0 < b))"
| "dmul NInf (Fin b) = (if b = 0 then NaN else dinf (b < 0))"
| "dmul PInf PInf = PInf"
| "dmul PInf NInf = NInf"
| "dmul NInf PInf = NInf"
| "dmul NInf NInf = PInf"

fun ddiv :: "double \<Rightarrow> double \<Rightarrow> double" where
  "ddiv (Fin a) (Fin b) =
     (if b \<noteq> 0 then Fin (a / b) else if a = 0 then NaN else dinf (0 < a))"
| "ddiv NaN _ = NaN"
| "ddiv _ NaN = NaN"
| "ddiv (Fin a) PInf = Fin 0"
| "ddiv (Fin a) NInf = Fin 0"
| "ddiv PInf (Fin b) = dinf (0 \<le> b)"
| "ddiv NInf (Fin b) = dinf (b < 0)"
| "ddiv PInf PInf = NaN"
| "ddiv PInf NInf = NaN"
| "ddiv NInf PInf = NaN"
| "ddiv NInf NInf = NaN"

fun dless :: "double \<Rightarrow> double \<Rightarrow> bool" where
  "dless (Fin a) (Fin b) = (a < b)"
| "dless NaN _ = False"
| "dless _ NaN = False"
| "dless (Fin a) PInf = True"
| "dless (Fin a) NInf = False"
| "dless PInf _ = False"
| "dless NInf (Fin b) = True"
| "dless NInf PInf = True"
| "dless NInf NInf = False"

text \<open>
  Rounding. The result of an arithmetic operation on floats or doubles is the exact
  result rounded to the nearest number of the format, a tie going to the even
  significand, with gradual underflow. \<open>rne\<close> rounds a real to the nearest integer in this
  way; \<open>ulp_exp p emin a\<close> is the exponent of the unit in the last place of \<open>a\<close> in the
  format of \<open>p\<close> binary digits whose least normal exponent is \<open>emin\<close>; \<open>f32\<close> and \<open>f64\<close> round
  to \<open>float\<close> and to \<open>double\<close> with no bound on the exponent from above, and \<open>fl64\<close> is the
  double result with the overflow to an infinity.
\<close>

definition rne :: "real \<Rightarrow> int" where
  "rne a =
     (let f = \<lfloor>a\<rfloor> in
      if a - of_int f < 1 / 2 then f
      else if 1 / 2 < a - of_int f then f + 1
      else if even f then f else f + 1)"

definition pow2 :: "int \<Rightarrow> real" where
  "pow2 k = 2 powr of_int k"

definition ulp_exp :: "nat \<Rightarrow> int \<Rightarrow> real \<Rightarrow> int" where
  "ulp_exp p emin a = max \<lfloor>log 2 \<bar>a\<bar>\<rfloor> emin - (int p - 1)"

definition round_to :: "nat \<Rightarrow> int \<Rightarrow> real \<Rightarrow> real" where
  "round_to p emin a =
     (if a = 0 then 0
      else of_int (rne (a / pow2 (ulp_exp p emin a))) * pow2 (ulp_exp p emin a))"

definition f32 :: "real \<Rightarrow> real" where
  "f32 = round_to 24 (- 126)"

definition f64 :: "real \<Rightarrow> real" where
  "f64 = round_to 53 (- 1022)"

definition fl64 :: "real \<Rightarrow> double" where
  "fl64 a = (if 2 ^ 1024 \<le> \<bar>f64 a\<bar> then dinf (0 < a) else Fin (f64 a))"

fun dround :: "double \<Rightarrow> double" where
  "dround (Fin a) = fl64 a"
| "dround PInf = PInf"
| "dround NInf = NInf"
| "dround NaN = NaN"

text \<open>The quotient and the difference of two doubles, as a double.\<close>

definition ddiv64 :: "double \<Rightarrow> double \<Rightarrow> double" where
  "ddiv64 a b = dround (ddiv a b)"

fun dsub64 :: "double \<Rightarrow> double \<Rightarrow> double" where
  "dsub64 (Fin a) (Fin b) = fl64 (a - b)"
| "dsub64 NaN _ = NaN"
| "dsub64 _ NaN = NaN"
| "dsub64 (Fin a) PInf = NInf"
| "dsub64 (Fin a) NInf = PInf"
| "dsub64 PInf (Fin b) = PInf"
| "dsub64 NInf (Fin b) = NInf"
| "dsub64 PInf PInf = NaN"
| "dsub64 PInf NInf = PInf"
| "dsub64 NInf PInf = NInf"
| "dsub64 NInf NInf = NaN"

definition DBL_EPSILON :: real where
  "DBL_EPSILON = 1 / 2 ^ 52"

text \<open>
  Undefined behaviour of the C++ code is a value: an element access outside the vector,
  and an iterator moved before \<open>begin()\<close>. \<open>NotFinite\<close> marks the one place where this
  development stops following the floats: a difference of two keypoint coordinates that
  overflows the \<open>float\<close> format (the coordinates are pixel positions).
\<close>

datatype ub = OutOfBounds | InvalidIterator | NotFinite

definition vec_at :: "'a list \<Rightarrow> int \<Rightarrow> ub + 'a" where
  "vec_at v i = (if 0 \<le> i \<and> i < int (length v) then Inr (v ! nat i) else Inl OutOfBounds)"

section \<open>Data structures\<close>

record Point2f =
  x :: real
  y :: real

record Point =
  x :: int
  y :: int

record Rect =
  x :: int
  y :: int
  width :: int
  height :: int

record KeyPoint =
  pt :: Point2f

record DMatch =
  queryIdx :: int
  trainIdx :: int
  imgIdx :: int
  distance :: real

record LidarPoint =
  x :: real
  y :: real
  z :: real
  r :: real

record BoundingBox =
  boxID :: int
  roi :: Rect
  lidarPoints :: "LidarPoint list"
  kptMatches :: "DMatch list"

record DataFrame =
  keypoints :: "KeyPoint list"
  boundingBoxes :: "BoundingBox list"


text \<open>
  The difference of two \<open>Point2f\<close>: each coordinate is a \<open>float\<close> subtraction.
\<close>

definition Point2f_sub :: "Point2f \<Rightarrow> Point2f \<Rightarrow> ub + Point2f" where
  "Point2f_sub a b =
     (let dx = f32 (Point2f.x a - Point2f.x b); dy = f32 (Point2f.y a - Point2f.y b)
      in if \<bar>dx\<bar> < 2 ^ 128 \<and> \<bar>dy\<bar> < 2 ^ 128 then Inr \<lparr>Point2f.x = dx, Point2f.y = dy\<rparr>
         else Inl NotFinite)"

text \<open>
  \<open>cv::norm\<close> of a \<open>Point2f\<close>: \<open>std::sqrt((double)pt.x*pt.x + (double)pt.y*pt.y)\<close>, every
  operation a \<open>double\<close> operation.
\<close>

definition cv_norm :: "Point2f \<Rightarrow> real" where
  "cv_norm p =
     f64 (sqrt (f64 (f64 (Point2f.x p * Point2f.x p) + f64 (Point2f.y p * Point2f.y p))))"

section \<open>computeTTCCamera\<close>

text \<open>The inner loop, \<open>it2\<close> running over the matches it is given.\<close>

fun computeTTCCamera_inner ::
  "KeyPoint list \<Rightarrow> KeyPoint list \<Rightarrow> KeyPoint \<Rightarrow> KeyPoint \<Rightarrow> DMatch list \<Rightarrow> real list
     \<Rightarrow> ub + real list" where
  "computeTTCCamera_inner kptsPrev kptsCurr keyCurrOuter keyPrevOuter [] distRatios =
     Inr distRatios"
| "computeTTCCamera_inner kptsPrev kptsCurr keyCurrOuter keyPrevOuter (it2 # rest) distRatios =
     (let minDist = 100 in
      case vec_at kptsCurr (trainIdx it2) of
        Inl e \<Rightarrow> Inl e
      | Inr keyCurrInner \<Rightarrow>
          (case vec_at kptsPrev (queryIdx it2) of
             Inl e \<Rightarrow> Inl e
           | Inr keyPrevInner \<Rightarrow>
               (case Point2f_sub (pt keyCurrOuter) (pt keyCurrInner) of
                  Inl e \<Rightarrow> Inl e
                | Inr diffCurr \<Rightarrow>
                    (case Point2f_sub (pt keyPrevOuter) (pt keyPrevInner) of
                       Inl e \<Rightarrow> Inl e
                     | Inr diffPrev \<Rightarrow>
                         (let distCurr = cv_norm diffCurr;
                              distPrev = cv_norm diffPrev
                          in computeTTCCamera_inner kptsPrev kptsCurr keyCurrOuter keyPrevOuter rest
                               (if distPrev > DBL_EPSILON \<and> distCurr \<ge> minDist
                                then distRatios @ [f64 (distCurr / distPrev)]
                                else distRatios))))))"

text \<open>The outer loop, \<open>it1\<close> running over its range; the inner loop starts at \<open>begin() + 1\<close>.\<close>

fun computeTTCCamera_outer ::
  "KeyPoint list \<Rightarrow> KeyPoint list \<Rightarrow> DMatch list \<Rightarrow> DMatch list \<Rightarrow> real list
     \<Rightarrow> ub + real list" where
  "computeTTCCamera_outer kptsPrev kptsCurr kptMatches' [] distRatios = Inr distRatios"
| "computeTTCCamera_outer kptsPrev kptsCurr kptMatches' (it1 # rest) distRatios =
     (case vec_at kptsCurr (trainIdx it1) of
        Inl e \<Rightarrow> Inl e
      | Inr keyCurrOuter \<Rightarrow>
          (case vec_at kptsPrev (queryIdx it1) of
             Inl e \<Rightarrow> Inl e
           | Inr keyPrevOuter \<Rightarrow>
               (case computeTTCCamera_inner kptsPrev kptsCurr keyCurrOuter keyPrevOuter
                       (tl kptMatches') distRatios of
                  Inl e \<Rightarrow> Inl e
                | Inr distRatios' \<Rightarrow>
                    computeTTCCamera_outer kptsPrev kptsCurr kptMatches' rest distRatios')))"

text \<open>
  The vector \<open>distRatios\<close> when the loops are left. On an empty \<open>kptMatches\<close> the bound
  \<open>kptMatches.end() - 1\<close> of the outer loop lies before \<open>begin()\<close>.
\<close>

definition computeTTCCamera_distRatios ::
  "KeyPoint list \<Rightarrow> KeyPoint list \<Rightarrow> DMatch list \<Rightarrow> ub + real list" where
  "computeTTCCamera_distRatios kptsPrev kptsCurr kptMatches' =
     (if kptMatches' = [] then Inl InvalidIterator
      else computeTTCCamera_outer kptsPrev kptsCurr kptMatches' (butlast kptMatches') [])"

text \<open>
  The value written to \<open>TTC\<close> from the collected ratios (lines 177 to 186), each operation
  a \<open>double\<close> operation.
\<close>

definition computeTTCCamera_fromRatios :: "real list \<Rightarrow> real \<Rightarrow> double" where
  "computeTTCCamera_fromRatios distRatios frameRate =
     (if length distRatios = 0 then NaN
      else
        (let distRatios' = sort distRatios;
             medIdx = length distRatios' div 2;
             medDistRatio =
               (if length distRatios' mod 2 = 0
                then ddiv64 (fl64 (distRatios' ! (medIdx - 1) + distRatios' ! medIdx)) (Fin 2)
                else Fin (distRatios' ! medIdx));
             dT = ddiv64 (Fin 1) (Fin frameRate)
         in ddiv64 (dneg dT) (dsub64 (Fin 1) medDistRatio)))"

definition computeTTCCamera ::
  "KeyPoint list \<Rightarrow> KeyPoint list \<Rightarrow> DMatch list \<Rightarrow> real \<Rightarrow> ub + double" where
  "computeTTCCamera kptsPrev kptsCurr kptMatches' frameRate =
     (case computeTTCCamera_distRatios kptsPrev kptsCurr kptMatches' of
        Inl e \<Rightarrow> Inl e
      | Inr distRatios \<Rightarrow> Inr (computeTTCCamera_fromRatios distRatios frameRate))"

section \<open>computeTTCLidar\<close>

text \<open>
  \<open>std::sort\<close> with the comparator \<open>lidPt1.x < lidPt2.x\<close>, in place on the caller's
  vector. C++ leaves the order of points with equal \<open>x\<close> open; the model keeps them in
  their input order, and the theorems below hold for every such order.
\<close>

definition std_sort_x :: "LidarPoint list \<Rightarrow> LidarPoint list" where
  "std_sort_x v = sort_key LidarPoint.x v"

text \<open>The median expression of lines 199 to 203, on a sorted vector.\<close>

definition medianX :: "LidarPoint list \<Rightarrow> ub + real" where
  "medianX v =
     (let medIdx = int (length v) div 2 in
      if length v mod 2 = 0
      then (case vec_at v (medIdx - 1) of
              Inl e \<Rightarrow> Inl e
            | Inr a \<Rightarrow>
                (case vec_at v medIdx of
                   Inl e \<Rightarrow> Inl e
                 | Inr b \<Rightarrow> Inr ((LidarPoint.x a + LidarPoint.x b) / 2)))
      else (case vec_at v medIdx of Inl e \<Rightarrow> Inl e | Inr a \<Rightarrow> Inr (LidarPoint.x a)))"

text \<open>
  What the call leaves behind: the two vectors passed by reference, and \<open>TTC\<close>.
\<close>

record computeTTCLidar_out =
  lidarPointsPrev :: "LidarPoint list"
  lidarPointsCurr :: "LidarPoint list"
  TTC :: double

definition computeTTCLidar ::
  "LidarPoint list \<Rightarrow> LidarPoint list \<Rightarrow> real \<Rightarrow> ub + computeTTCLidar_out" where
  "computeTTCLidar lidarPointsPrev' lidarPointsCurr' frameRate =
     (let sortedCurr = std_sort_x lidarPointsCurr';
          sortedPrev = std_sort_x lidarPointsPrev'
      in case medianX sortedCurr of
           Inl e \<Rightarrow> Inl e
         | Inr medCurrX \<Rightarrow>
             (case medianX sortedPrev of
                Inl e \<Rightarrow> Inl e
              | Inr medPrevX \<Rightarrow>
                  (let dT = ddiv (Fin 1) (Fin frameRate)
                   in Inr \<lparr>lidarPointsPrev = sortedPrev, lidarPointsCurr = sortedCurr,
                            TTC = ddiv (dmul dT (Fin medCurrX)) (Fin (medPrevX - medCurrX))\<rparr>)))"

section \<open>Rectangles\<close>

text \<open>
  \<open>cv::Rect::contains\<close>: the half-open test of OpenCV. For a \<open>Point2f\<close> the float
  coordinates are compared as they are; a library version that rounds them to integers
  first agrees on every point with integral coordinates.
\<close>

definition Rect_contains :: "Rect \<Rightarrow> Point \<Rightarrow> bool" where
  "Rect_contains rc p =
     (Rect.x rc \<le> Point.x p \<and> Point.x p < Rect.x rc + width rc \<and>
      Rect.y rc \<le> Point.y p \<and> Point.y p < Rect.y rc + height rc)"

definition Rect_contains2f :: "Rect \<Rightarrow> Point2f \<Rightarrow> bool" where
  "Rect_contains2f rc p =
     (real_of_int (Rect.x rc) \<le> Point2f.x p \<and> Point2f.x p < real_of_int (Rect.x rc + width rc) \<and>
      real_of_int (Rect.y rc) \<le> Point2f.y p \<and> Point2f.y p < real_of_int (Rect.y rc + height rc))"

text \<open>
  The conversion of a \<open>double\<close> to \<open>int\<close>: towards zero. An \<open>int\<close> of the source is read
  as an integer: pixel coordinates, indices and box ids stay far from the bounds of 32
  bits.
\<close>

definition to_int :: "real \<Rightarrow> int" where
  "to_int a = (if 0 \<le> a then \<lfloor>a\<rfloor> else \<lceil>a\<rceil>)"

section \<open>clusterLidarWithROI\<close>

text \<open>
  The shrunk rectangle of lines 39 to 42. \<open>shrinkFactor\<close> is a \<open>float\<close>: the product with
  the width (converted to \<open>float\<close>) is a \<open>float\<close> product, the quotient by \<open>2.0\<close> and the
  sum with \<open>roi.x\<close> are \<open>double\<close> operations, \<open>1 - shrinkFactor\<close> and the product for the
  new width are \<open>float\<close> operations, and each result is converted to \<open>int\<close>. The factor and
  the sizes are taken small enough for the products to be finite floats.
\<close>

definition smallerBox :: "real \<Rightarrow> Rect \<Rightarrow> Rect" where
  "smallerBox shrinkFactor rc =
     \<lparr>Rect.x = to_int (f64 (f64 (of_int (Rect.x rc))
                            + f64 (f32 (shrinkFactor * f32 (of_int (width rc))) / 2))),
      Rect.y = to_int (f64 (f64 (of_int (Rect.y rc))
                            + f64 (f32 (shrinkFactor * f32 (of_int (height rc))) / 2))),
      width = to_int (f32 (f32 (of_int (width rc)) * f32 (1 - shrinkFactor))),
      height = to_int (f32 (f32 (of_int (height rc)) * f32 (1 - shrinkFactor)))\<rparr>"
text \<open>
  The positions (iterators) of the boxes whose shrunk rectangle contains the pixel, in the
  order of the loop over all boxes.
\<close>

definition enclosingBoxes :: "real \<Rightarrow> Point \<Rightarrow> BoundingBox list \<Rightarrow> nat list" where
  "enclosingBoxes shrinkFactor pt' boundingBoxes' =
     filter (\<lambda>it2. Rect_contains (smallerBox shrinkFactor (roi (boundingBoxes' ! it2))) pt')
       [0 ..< length boundingBoxes']"

text \<open>
  One turn of the loop over the Lidar points. The product \<open>P_rect_xx * R_rect_xx * RT * X\<close>
  and its conversion to a pixel are OpenCV matrix code: the model takes the pixel of a
  point from the function \<open>project\<close>.
\<close>

definition clusterLidarWithROI_point ::
  "real \<Rightarrow> (LidarPoint \<Rightarrow> Point) \<Rightarrow> BoundingBox list \<Rightarrow> LidarPoint \<Rightarrow> BoundingBox list" where
  "clusterLidarWithROI_point shrinkFactor project boundingBoxes' it1 =
     (let pt' = project it1;
          enclosing = enclosingBoxes shrinkFactor pt' boundingBoxes'
      in if length enclosing = 1
         then boundingBoxes'[enclosing ! 0 :=
                (boundingBoxes' ! (enclosing ! 0))
                  \<lparr>lidarPoints := lidarPoints (boundingBoxes' ! (enclosing ! 0)) @ [it1]\<rparr>]
         else boundingBoxes')"

definition clusterLidarWithROI ::
  "BoundingBox list \<Rightarrow> LidarPoint list \<Rightarrow> real \<Rightarrow> (LidarPoint \<Rightarrow> Point) \<Rightarrow> BoundingBox list" where
  "clusterLidarWithROI boundingBoxes' lidarPoints' shrinkFactor project =
     foldl (clusterLidarWithROI_point shrinkFactor project) boundingBoxes' lidarPoints'"

section \<open>clusterKptMatchesWithROI\<close>

text \<open>The first loop: the box with the matches pushed so far, and \<open>sumDist\<close>.\<close>

fun clusterKptMatchesWithROI_loop ::
  "BoundingBox \<Rightarrow> KeyPoint list \<Rightarrow> DMatch list \<Rightarrow> real \<Rightarrow> ub + BoundingBox \<times> real" where
  "clusterKptMatchesWithROI_loop boundingBox kptsCurr [] sumDist = Inr (boundingBox, sumDist)"
| "clusterKptMatchesWithROI_loop boundingBox kptsCurr (match # rest) sumDist =
     (case vec_at kptsCurr (trainIdx match) of
        Inl e \<Rightarrow> Inl e
      | Inr kp \<Rightarrow>
          (if Rect_contains2f (roi boundingBox) (pt kp)
           then clusterKptMatchesWithROI_loop
                  (boundingBox\<lparr>kptMatches := kptMatches boundingBox @ [match]\<rparr>) kptsCurr rest
                  (sumDist + distance match)
           else clusterKptMatchesWithROI_loop boundingBox kptsCurr rest sumDist))"

definition meanDist :: "real \<Rightarrow> BoundingBox \<Rightarrow> double" where
  "meanDist sumDist boundingBox =
     ddiv (Fin sumDist) (Fin (real (length (kptMatches boundingBox))))"

definition clusterKptMatchesWithROI ::
  "BoundingBox \<Rightarrow> KeyPoint list \<Rightarrow> KeyPoint list \<Rightarrow> DMatch list \<Rightarrow> ub + BoundingBox" where
  "clusterKptMatchesWithROI boundingBox kptsPrev kptsCurr kptMatches' =
     (case clusterKptMatchesWithROI_loop boundingBox kptsCurr kptMatches' 0 of
        Inl e \<Rightarrow> Inl e
      | Inr (boundingBox', sumDist) \<Rightarrow>
          Inr (boundingBox'\<lparr>kptMatches :=
                 filter (\<lambda>match. \<not> dless (Fin (distance match))
                                      (dmul (Fin (7 / 10)) (meanDist sumDist boundingBox')))
                   (kptMatches boundingBox')\<rparr>))"

section \<open>matchBoundingBoxes\<close>

text \<open>
  The loop over the boxes of a frame (lines 221 to 228 and 229 to 236): the id variable
  takes the \<open>boxID\<close> of the first box that contains the keypoint and keeps its value
  when no box does.
\<close>

fun firstBox :: "BoundingBox list \<Rightarrow> Point2f \<Rightarrow> int \<Rightarrow> int" where
  "firstBox [] p id' = id'"
| "firstBox (bbox # rest) p id' =
     (if Rect_contains2f (roi bbox) p then boxID bbox else firstBox rest p id')"

text \<open>
  The state of the first loop. The multimap \<open>bboxIdMap\<close> is the list of its pairs in the
  order of insertion; \<open>equal_range\<close> is the sublist of one key, and only the number of
  pairs of a key and a value is read from it.
\<close>

record votes =
  bboxIdMap :: "(int \<times> int) list"
  currId :: int
  prevId :: int
  prevMaxId :: int

definition votes_init :: votes where
  "votes_init = \<lparr>bboxIdMap = [], currId = - 1, prevId = - 1, prevMaxId = 0\<rparr>"

fun matchBoundingBoxes_votes :: "DataFrame \<Rightarrow> DataFrame \<Rightarrow> DMatch list \<Rightarrow> votes \<Rightarrow> ub + votes" where
  "matchBoundingBoxes_votes prevFrame currFrame [] st = Inr st"
| "matchBoundingBoxes_votes prevFrame currFrame (it # rest) st =
     (case vec_at (keypoints currFrame) (trainIdx it) of
        Inl e \<Rightarrow> Inl e
      | Inr currKeypoint \<Rightarrow>
          (case vec_at (keypoints prevFrame) (queryIdx it) of
             Inl e \<Rightarrow> Inl e
           | Inr prevKeypoint \<Rightarrow>
               (let currId' = firstBox (boundingBoxes currFrame) (pt currKeypoint) (currId st);
                    prevId' = firstBox (boundingBoxes prevFrame) (pt prevKeypoint) (prevId st)
                in matchBoundingBoxes_votes prevFrame currFrame rest
                     \<lparr>bboxIdMap = bboxIdMap st @ [(currId', prevId')],
                      currId = currId', prevId = prevId',
                      prevMaxId = max (prevMaxId st) prevId'\<rparr>)))"

text \<open>The counting loop of lines 256 to 263 over the pairs of one current id.\<close>

fun countMaxId_loop :: "(int \<times> int) list \<Rightarrow> int list \<Rightarrow> ub + int list" where
  "countMaxId_loop [] countMaxId = Inr countMaxId"
| "countMaxId_loop (it # rest) countMaxId =
     (if snd it \<noteq> - 1
      then (case vec_at countMaxId (snd it) of
              Inl e \<Rightarrow> Inl e
            | Inr c \<Rightarrow> countMaxId_loop rest (countMaxId[nat (snd it) := c + 1]))
      else countMaxId_loop rest countMaxId)"

text \<open>
  \<open>std::max_element\<close>: the position of the first largest element; the scan keeps the
  position \<open>largest\<close> and moves it only to a strictly greater element.
\<close>

fun max_element_loop :: "int list \<Rightarrow> int list \<Rightarrow> nat \<Rightarrow> nat \<Rightarrow> nat" where
  "max_element_loop v [] largest first = largest"
| "max_element_loop v (e # rest) largest first =
     max_element_loop v rest (if v ! largest < e then first else largest) (Suc first)"

definition max_element :: "int list \<Rightarrow> nat" where
  "max_element v = (if v = [] then 0 else max_element_loop v (tl v) 0 1)"

text \<open>The previous id chosen for one current id \<open>cid\<close> (lines 250 to 265).\<close>

definition matchBoundingBoxes_pid :: "(int \<times> int) list \<Rightarrow> int \<Rightarrow> int \<Rightarrow> ub + int" where
  "matchBoundingBoxes_pid bboxIdMap' prevMaxId' cid =
     (let prevMatchedIds = filter (\<lambda>it. fst it = cid) bboxIdMap';
          countMaxId = replicate (nat (prevMaxId' + 1)) 0
      in case countMaxId_loop prevMatchedIds countMaxId of
           Inl e \<Rightarrow> Inl e
         | Inr countMaxId' \<Rightarrow> Inr (int (max_element countMaxId')))"

text \<open>\<open>std::map::insert\<close>: a key that is present keeps its value.\<close>

definition map_insert :: "(int \<rightharpoonup> int) \<Rightarrow> int \<Rightarrow> int \<Rightarrow> (int \<rightharpoonup> int)" where
  "map_insert m k v = (case m k of None \<Rightarrow> m(k \<mapsto> v) | Some _ \<Rightarrow> m)"

fun matchBoundingBoxes_select ::
  "(int \<times> int) list \<Rightarrow> int \<Rightarrow> int list \<Rightarrow> (int \<rightharpoonup> int) \<Rightarrow> ub + (int \<rightharpoonup> int)" where
  "matchBoundingBoxes_select bboxIdMap' prevMaxId' [] bbBestMatches = Inr bbBestMatches"
| "matchBoundingBoxes_select bboxIdMap' prevMaxId' (cid # rest) bbBestMatches =
     (case matchBoundingBoxes_pid bboxIdMap' prevMaxId' cid of
        Inl e \<Rightarrow> Inl e
      | Inr pid \<Rightarrow>
          matchBoundingBoxes_select bboxIdMap' prevMaxId' rest (map_insert bbBestMatches pid cid))"

definition matchBoundingBoxes ::
  "DMatch list \<Rightarrow> (int \<rightharpoonup> int) \<Rightarrow> DataFrame \<Rightarrow> DataFrame \<Rightarrow> ub + (int \<rightharpoonup> int)" where
  "matchBoundingBoxes matches bbBestMatches prevFrame currFrame =
     (case matchBoundingBoxes_votes prevFrame currFrame matches votes_init of
        Inl e \<Rightarrow> Inl e
      | Inr st \<Rightarrow>
          (let currFrameBboxIds = map boxID (boundingBoxes currFrame)
           in matchBoundingBoxes_select (bboxIdMap st) (prevMaxId st) currFrameBboxIds
                bbBestMatches))"

section \<open>The words of the specification\<close>


text \<open>
  The median of doubles, the average of the two middle values being computed in doubles.
\<close>

definition median_double :: "real list \<Rightarrow> double" where
  "median_double vs =
     (let s = sort vs; n = length s
      in if odd n then Fin (s ! ((n - 1) div 2))
         else ddiv64 (fl64 (s ! (n div 2 - 1) + s ! (n div 2))) (Fin 2))"

text \<open>
  The two pixel distances of a pair of correspondences, the test a pair has to pass (its
  previous distance exceeds the epsilon and its current distance is at least 100), and
  its ratio.
\<close>

definition Point2f_diff :: "Point2f \<Rightarrow> Point2f \<Rightarrow> Point2f" where
  "Point2f_diff a b =
     \<lparr>Point2f.x = f32 (Point2f.x a - Point2f.x b), Point2f.y = f32 (Point2f.y a - Point2f.y b)\<rparr>"

definition distCurr_of :: "KeyPoint list \<Rightarrow> DMatch \<Rightarrow> DMatch \<Rightarrow> real" where
  "distCurr_of kptsCurr m1 m2 =
     cv_norm (Point2f_diff (pt (kptsCurr ! nat (trainIdx m1))) (pt (kptsCurr ! nat (trainIdx m2))))"

definition distPrev_of :: "KeyPoint list \<Rightarrow> DMatch \<Rightarrow> DMatch \<Rightarrow> real" where
  "distPrev_of kptsPrev m1 m2 =
     cv_norm (Point2f_diff (pt (kptsPrev ! nat (queryIdx m1))) (pt (kptsPrev ! nat (queryIdx m2))))"

definition kept :: "KeyPoint list \<Rightarrow> KeyPoint list \<Rightarrow> DMatch \<Rightarrow> DMatch \<Rightarrow> bool" where
  "kept kptsPrev kptsCurr m1 m2 =
     (distPrev_of kptsPrev m1 m2 > DBL_EPSILON \<and> distCurr_of kptsCurr m1 m2 \<ge> 100)"

definition ratio_of :: "KeyPoint list \<Rightarrow> KeyPoint list \<Rightarrow> DMatch \<Rightarrow> DMatch \<Rightarrow> real" where
  "ratio_of kptsPrev kptsCurr m1 m2 = f64 (distCurr_of kptsCurr m1 m2 / distPrev_of kptsPrev m1 m2)"



text \<open>
  The pairs the two loops of \<open>computeTTCCamera\<close> take: a correspondence but the last with
  a correspondence but the first.
\<close>

definition loop_pairs :: "'a list \<Rightarrow> ('a \<times> 'a) list" where
  "loop_pairs ms = concat (map (\<lambda>m1. map (\<lambda>m2. (m1, m2)) (tl ms)) (butlast ms))"

text \<open>The ratios that survive among the pairs of a list.\<close>

definition ratios_of ::
  "KeyPoint list \<Rightarrow> KeyPoint list \<Rightarrow> (DMatch \<times> DMatch) list \<Rightarrow> real list" where
  "ratios_of kptsPrev kptsCurr pairs =
     map (\<lambda>(m1, m2). ratio_of kptsPrev kptsCurr m1 m2)
       (filter (\<lambda>(m1, m2). kept kptsPrev kptsCurr m1 m2) pairs)"

definition surviving_ratios :: "KeyPoint list \<Rightarrow> KeyPoint list \<Rightarrow> DMatch list \<Rightarrow> real list" where
  "surviving_ratios kptsPrev kptsCurr ms = ratios_of kptsPrev kptsCurr (loop_pairs ms)"

definition indices_ok :: "KeyPoint list \<Rightarrow> KeyPoint list \<Rightarrow> DMatch list \<Rightarrow> bool" where
  "indices_ok kptsPrev kptsCurr ms =
     list_all (\<lambda>m. 0 \<le> trainIdx m \<and> trainIdx m < int (length kptsCurr) \<and>
                    0 \<le> queryIdx m \<and> queryIdx m < int (length kptsPrev)) ms"

text \<open>
  Keypoints whose coordinates are at most \<open>2 ^ 126\<close> in absolute value: the differences
  of two of them are finite floats.
\<close>

definition coords_ok :: "KeyPoint list \<Rightarrow> bool" where
  "coords_ok kpts =
     list_all (\<lambda>k. \<bar>Point2f.x (pt k)\<bar> \<le> 2 ^ 126 \<and> \<bar>Point2f.y (pt k)\<bar> \<le> 2 ^ 126) kpts"

text \<open>
  The correspondences whose current keypoint lies inside the rectangle of the box.
\<close>

definition enclosed :: "BoundingBox \<Rightarrow> KeyPoint list \<Rightarrow> DMatch list \<Rightarrow> DMatch list" where
  "enclosed boundingBox kptsCurr ms =
     filter (\<lambda>m. Rect_contains2f (roi boundingBox) (pt (kptsCurr ! nat (trainIdx m)))) ms"

text \<open>
  The number of recorded pairs that name the previous id \<open>p\<close> for the current id \<open>c\<close>.
\<close>

definition votes_for :: "(int \<times> int) list \<Rightarrow> int \<Rightarrow> int \<Rightarrow> nat" where
  "votes_for recorded c p = length (filter (\<lambda>v. v = (c, p)) recorded)"

text \<open>
  The box id a keypoint finds, if any, and the id found by the most recent correspondence
  of a list that found one (\<open>- 1\<close> when none did).
\<close>

fun found_id :: "BoundingBox list \<Rightarrow> Point2f \<Rightarrow> int option" where
  "found_id [] p = None"
| "found_id (bbox # rest) p =
     (if Rect_contains2f (roi bbox) p then Some (boxID bbox) else found_id rest p)"

fun most_recent :: "int option list \<Rightarrow> int" where
  "most_recent [] = - 1"
| "most_recent (f # earlier) = (case f of Some i \<Rightarrow> i | None \<Rightarrow> most_recent earlier)"

text \<open>
  What a correspondence finds in each frame, and the pairs the specification has the
  first loop of the box matcher record: for every correspondence the ids found by the
  most recent correspondence up to it that found one.
\<close>

definition foundCurr :: "DataFrame \<Rightarrow> DMatch \<Rightarrow> int option" where
  "foundCurr currFrame m =
     found_id (boundingBoxes currFrame) (pt (keypoints currFrame ! nat (trainIdx m)))"

definition foundPrev :: "DataFrame \<Rightarrow> DMatch \<Rightarrow> int option" where
  "foundPrev prevFrame m =
     found_id (boundingBoxes prevFrame) (pt (keypoints prevFrame ! nat (queryIdx m)))"

definition recorded_spec :: "DataFrame \<Rightarrow> DataFrame \<Rightarrow> DMatch list \<Rightarrow> (int \<times> int) list" where
  "recorded_spec prevFrame currFrame ms =
     map (\<lambda>k. (most_recent (rev (map (foundCurr currFrame) (take (Suc k) ms))),
                most_recent (rev (map (foundPrev prevFrame) (take (Suc k) ms)))))
       [0 ..< length ms]"

text \<open>
  The previous id the specification has the box matcher choose for a current id: of the
  previous ids other than the sentinel that the recorded pairs name for it, the one with
  the highest count, the lowest such id when several have it; 0 when the pairs name none.
\<close>

definition best_previous :: "(int \<times> int) list \<Rightarrow> int \<Rightarrow> int" where
  "best_previous recorded c =
     (let ps = filter (\<lambda>p. p \<noteq> - 1) (map snd (filter (\<lambda>v. fst v = c) recorded))
      in if ps = [] then 0
         else Min (set (filter (\<lambda>p. \<forall>q \<in> set ps. votes_for recorded c q \<le> votes_for recorded c p)
                          ps)))"

section \<open>Rounding to the nearest float\<close>

lemma pow2_pos [simp]: "0 < pow2 k"
  by (simp add: pow2_def)

lemma pow2_nonneg [simp]: "0 \<le> pow2 k"
  by (simp add: pow2_def)

lemma pow2_ne0 [simp]: "pow2 k \<noteq> 0"
  by (simp add: pow2_def)

lemma pow2_abs [simp]: "\<bar>pow2 k\<bar> = pow2 k"
  by (simp add: pow2_def)

lemma pow2_add: "pow2 (j + k) = pow2 j * pow2 k"
  by (simp add: pow2_def powr_add)

lemma pow2_nat: "pow2 (int n) = 2 ^ n"
  by (simp add: pow2_def powr_realpow)

lemma pow2_neg_nat: "pow2 (- int n) = 1 / 2 ^ n"
  by (simp add: pow2_def powr_minus powr_realpow inverse_eq_divide)

lemma pow2_mono: "j \<le> k \<Longrightarrow> pow2 j \<le> pow2 k"
  by (simp add: pow2_def)

lemma pow2_diff: "pow2 (j - k) = pow2 j / pow2 k"
  by (simp add: pow2_def powr_diff)

lemma rne_near: "\<bar>of_int (rne a) - a\<bar> \<le> 1 / 2"
  unfolding rne_def Let_def by (auto simp: abs_le_iff)

lemma rne_of_int [simp]: "rne (of_int k) = k"
  by (simp add: rne_def)

lemma rne_0 [simp]: "rne 0 = 0"
  using rne_of_int [of 0] by simp

lemma rne_mono: "a \<le> b \<Longrightarrow> rne a \<le> rne b"
proof (rule ccontr)
  assume ab: "a \<le> b" and "\<not> rne a \<le> rne b"
  then have "rne b + 1 \<le> rne a" by simp
  then have 1: "real_of_int (rne b) + 1 \<le> of_int (rne a)" by linarith
  from rne_near [of a] have 2: "of_int (rne a) \<le> a + 1 / 2" by linarith
  from rne_near [of b] have 3: "b - 1 / 2 \<le> of_int (rne b)" by linarith
  from 1 2 3 ab have "a = b" by linarith
  with \<open>\<not> rne a \<le> rne b\<close> show False by simp
qed

lemma binade:
  assumes "a \<noteq> 0"
  shows "pow2 \<lfloor>log 2 \<bar>a\<bar>\<rfloor> \<le> \<bar>a\<bar>" and "\<bar>a\<bar> < pow2 (\<lfloor>log 2 \<bar>a\<bar>\<rfloor> + 1)"
proof -
  have pos: "0 < \<bar>a\<bar>" using assms by simp
  have "of_int \<lfloor>log 2 \<bar>a\<bar>\<rfloor> \<le> log 2 \<bar>a\<bar>" by simp
  then have "2 powr of_int \<lfloor>log 2 \<bar>a\<bar>\<rfloor> \<le> 2 powr log 2 \<bar>a\<bar>" by (simp only: powr_le_cancel_iff)
  then show "pow2 \<lfloor>log 2 \<bar>a\<bar>\<rfloor> \<le> \<bar>a\<bar>" using pos by (simp add: pow2_def)
  have "log 2 \<bar>a\<bar> < of_int (\<lfloor>log 2 \<bar>a\<bar>\<rfloor> + 1)" by linarith
  then have "2 powr log 2 \<bar>a\<bar> < 2 powr of_int (\<lfloor>log 2 \<bar>a\<bar>\<rfloor> + 1)" by (simp only: powr_less_cancel_iff) 
  then show "\<bar>a\<bar> < pow2 (\<lfloor>log 2 \<bar>a\<bar>\<rfloor> + 1)" using pos by (simp add: pow2_def)
qed

lemma floor_log_unique:
  assumes "pow2 e \<le> \<bar>a\<bar>" and "\<bar>a\<bar> < pow2 (e + 1)"
  shows "\<lfloor>log 2 \<bar>a\<bar>\<rfloor> = e"
proof -
  have pos: "0 < \<bar>a\<bar>" using assms(1) pow2_pos [of e] by linarith
  have "of_int e \<le> log 2 \<bar>a\<bar>"
    using assms(1) pos by (simp add: pow2_def le_log_iff)
  moreover have "log 2 \<bar>a\<bar> < of_int (e + 1)"
    using assms(2) pos by (simp add: pow2_def log_less_iff)
  ultimately show ?thesis by linarith
qed

lemma pow2_less_iff: "(pow2 j < pow2 k) = (j < k)"
  by (simp add: pow2_def)

lemma pow2_le_iff: "(pow2 j \<le> pow2 k) = (j \<le> k)"
  by (simp add: pow2_def)

lemma round_to_0 [simp]: "round_to p emin 0 = 0"
  by (simp add: round_to_def)

lemma round_to_exact:
  assumes a: "a = of_int m * pow2 e" and m: "\<bar>m\<bar> < 2 ^ p" and e: "emin - (int p - 1) \<le> e"
  shows "round_to p emin a = a"
proof (cases "a = 0")
  case True
  then show ?thesis by simp
next
  case False
  define u where "u = ulp_exp p emin a"
  have "\<bar>a\<bar> = of_int \<bar>m\<bar> * pow2 e" by (simp add: a abs_mult)
  also have "\<dots> < 2 ^ p * pow2 e"
  proof -
    from m have "real_of_int \<bar>m\<bar> < 2 ^ p" by (metis of_int_less_iff of_int_numeral of_int_power)
    then show ?thesis by simp
  qed
  also have "\<dots> = pow2 (int p + e)" by (simp add: pow2_add pow2_nat)
  finally have "\<bar>a\<bar> < pow2 (int p + e)" .
  with binade(1) [OF False] have "pow2 \<lfloor>log 2 \<bar>a\<bar>\<rfloor> < pow2 (int p + e)" by linarith
  then have "\<lfloor>log 2 \<bar>a\<bar>\<rfloor> < int p + e" by (simp add: pow2_less_iff)
  with e have ule: "u \<le> e" by (simp add: u_def ulp_exp_def)
  then have "int (nat (e - u)) = e - u" by simp
  then have "pow2 (e - u) = 2 ^ nat (e - u)" by (metis pow2_nat)
  then have pe: "pow2 e = pow2 u * 2 ^ nat (e - u)"
    using pow2_add [of u "e - u"] by simp
  have "a / pow2 u = of_int m * (pow2 u * 2 ^ nat (e - u)) / pow2 u"
    by (simp only: a pe)
  also have "\<dots> = of_int (m * 2 ^ nat (e - u))" by simp
  finally have "rne (a / pow2 u) = m * 2 ^ nat (e - u)"
    by (simp only: rne_of_int)
  then have "round_to p emin a = of_int (m * 2 ^ nat (e - u)) * pow2 u"
    using False by (simp add: round_to_def u_def)
  also have "\<dots> = of_int m * (pow2 u * 2 ^ nat (e - u))" by simp
  also have "\<dots> = a" by (simp only: a pe)
  finally show ?thesis .
qed

lemma round_to_int:
  "\<bar>n\<bar> < 2 ^ p \<Longrightarrow> emin \<le> int p - 1 \<Longrightarrow> round_to p emin (of_int n) = of_int n"
  by (rule round_to_exact [where m = n and e = 0]) (simp_all add: pow2_def)

lemma round_to_dyadic:
  "\<bar>n\<bar> < 2 ^ p \<Longrightarrow> emin - (int p - 1) \<le> - int k \<Longrightarrow>
   round_to p emin (of_int n / 2 ^ k) = of_int n / 2 ^ k"
  by (rule round_to_exact [where m = n and e = "- int k"]) (simp_all add: pow2_neg_nat)

text \<open>Bounds by the binade.\<close>

lemma scaled_bound:
  assumes "a \<noteq> 0"
  shows "\<bar>a\<bar> / pow2 (ulp_exp p emin a) < 2 ^ p"
proof -
  let ?E = "\<lfloor>log 2 \<bar>a\<bar>\<rfloor>"
  let ?u = "ulp_exp p emin a"
  have "\<bar>a\<bar> < pow2 (?E + 1)" by (rule binade(2) [OF assms])
  also have "\<dots> \<le> pow2 (max ?E emin + 1)" by (simp add: pow2_le_iff)
  also have "max ?E emin + 1 = ?u + int p" by (simp add: ulp_exp_def)
  also have "pow2 (?u + int p) = pow2 ?u * 2 ^ p" by (simp only: pow2_add pow2_nat)
  finally have "\<bar>a\<bar> < 2 ^ p * pow2 ?u" by (simp only: mult.commute)
  then show ?thesis by (simp only: pos_divide_less_eq [OF pow2_pos])
qed

lemma scaled_lower:
  assumes "a \<noteq> 0" and "emin < \<lfloor>log 2 \<bar>a\<bar>\<rfloor>" and "0 < p"
  shows "2 ^ (p - 1) \<le> \<bar>a\<bar> / pow2 (ulp_exp p emin a)"
proof -
  let ?E = "\<lfloor>log 2 \<bar>a\<bar>\<rfloor>"
  let ?u = "ulp_exp p emin a"
  have "?E = ?u + int (p - 1)" using assms(2,3) by (simp add: ulp_exp_def)
  then have "pow2 ?E = pow2 (?u + int (p - 1))" by simp
  also have "\<dots> = pow2 ?u * 2 ^ (p - 1)" by (simp only: pow2_add pow2_nat)
  finally have "2 ^ (p - 1) * pow2 ?u \<le> \<bar>a\<bar>"
    using binade(1) [OF assms(1)] by (simp only: mult.commute)
  then show ?thesis by (simp only: pos_le_divide_eq [OF pow2_pos])
qed

lemma round_to_sign:
  "0 \<le> a \<Longrightarrow> 0 \<le> round_to p emin a" "a \<le> 0 \<Longrightarrow> round_to p emin a \<le> 0"
proof -
  assume "0 \<le> a"
  then have "0 \<le> a / pow2 (ulp_exp p emin a)" by simp
  from rne_mono [OF this] have "0 \<le> rne (a / pow2 (ulp_exp p emin a))" by simp
  then show "0 \<le> round_to p emin a" by (simp add: round_to_def)
next
  assume "a \<le> 0"
  then have "a / pow2 (ulp_exp p emin a) \<le> 0" by (simp add: divide_le_0_iff)
  from rne_mono [OF this] have "rne (a / pow2 (ulp_exp p emin a)) \<le> 0" by simp
  then show "round_to p emin a \<le> 0" by (simp add: round_to_def mult_le_0_iff)
qed

lemma rne_bounds:
  assumes "\<bar>s\<bar> \<le> of_int k"
  shows "\<bar>rne s\<bar> \<le> k"
proof -
  from assms have "s \<le> of_int k" and "of_int (- k) \<le> s" by simp_all
  from rne_mono [OF this(1)] rne_mono [OF this(2)]
  have "rne s \<le> k" and "- k \<le> rne s" by (simp_all only: rne_of_int)
  then show ?thesis by simp
qed

lemma round_to_upper:
  assumes "a \<noteq> 0"
  shows "\<bar>round_to p emin a\<bar> \<le> pow2 (max \<lfloor>log 2 \<bar>a\<bar>\<rfloor> emin + 1)"
proof -
  define u where "u = ulp_exp p emin a"
  have "\<bar>a / pow2 u\<bar> = \<bar>a\<bar> / pow2 u" by simp
  also have "\<dots> < 2 ^ p" unfolding u_def by (rule scaled_bound [OF assms])
  finally have "\<bar>a / pow2 u\<bar> \<le> of_int (2 ^ p)" by simp
  from rne_bounds [OF this] have "real_of_int \<bar>rne (a / pow2 u)\<bar> \<le> 2 ^ p"
    by (metis of_int_le_iff of_int_numeral of_int_power)
  then have "real_of_int \<bar>rne (a / pow2 u)\<bar> * pow2 u \<le> 2 ^ p * pow2 u"
    by (simp only: mult_le_cancel_right_pos [OF pow2_pos])
  then have h1: "real_of_int \<bar>rne (a / pow2 u)\<bar> * pow2 u \<le> 2 ^ p * pow2 u" .
  have h2: "\<bar>round_to p emin a\<bar> = real_of_int \<bar>rne (a / pow2 u)\<bar> * pow2 u"
    using assms by (simp add: round_to_def u_def abs_mult)
  have h3: "2 ^ p * pow2 u = pow2 (max \<lfloor>log 2 \<bar>a\<bar>\<rfloor> emin + 1)"
  proof -
    have "max \<lfloor>log 2 \<bar>a\<bar>\<rfloor> emin + 1 = int p + u" by (simp add: u_def ulp_exp_def)
    then show ?thesis by (simp only: pow2_add pow2_nat)
  qed
  show ?thesis unfolding h2 h3 [symmetric] by (rule h1)
qed

lemma round_to_lower_pos:
  assumes "0 < a" and "emin < \<lfloor>log 2 \<bar>a\<bar>\<rfloor>" and "0 < p"
  shows "pow2 \<lfloor>log 2 \<bar>a\<bar>\<rfloor> \<le> round_to p emin a"
proof -
  define u where "u = ulp_exp p emin a"
  have ne: "a \<noteq> 0" using assms(1) by simp
  have "2 ^ (p - 1) \<le> \<bar>a\<bar> / pow2 u" unfolding u_def by (rule scaled_lower [OF ne assms(2,3)])
  then have "of_int (2 ^ (p - 1)) \<le> a / pow2 u" using assms(1) by simp
  from rne_mono [OF this] have "2 ^ (p - 1) \<le> rne (a / pow2 u)" by (simp only: rne_of_int)
  then have "(2::real) ^ (p - 1) \<le> of_int (rne (a / pow2 u))"
    by (metis of_int_le_iff of_int_numeral of_int_power)
  then have h1: "2 ^ (p - 1) * pow2 u \<le> of_int (rne (a / pow2 u)) * pow2 u"
    by (simp only: mult_le_cancel_right_pos [OF pow2_pos])
  have h2: "round_to p emin a = of_int (rne (a / pow2 u)) * pow2 u"
    using ne by (simp add: round_to_def u_def)
  have h3: "2 ^ (p - 1) * pow2 u = pow2 \<lfloor>log 2 \<bar>a\<bar>\<rfloor>"
  proof -
    have "\<lfloor>log 2 \<bar>a\<bar>\<rfloor> = int (p - 1) + u" using assms(2,3) by (simp add: u_def ulp_exp_def)
    then show ?thesis by (simp only: pow2_add pow2_nat)
  qed
  show ?thesis unfolding h2 h3 [symmetric] by (rule h1)
qed

lemma round_to_lower_neg:
  assumes "a < 0" and "emin < \<lfloor>log 2 \<bar>a\<bar>\<rfloor>" and "0 < p"
  shows "round_to p emin a \<le> - pow2 \<lfloor>log 2 \<bar>a\<bar>\<rfloor>"
proof -
  define u where "u = ulp_exp p emin a"
  have ne: "a \<noteq> 0" using assms(1) by simp
  have "2 ^ (p - 1) \<le> \<bar>a\<bar> / pow2 u" unfolding u_def by (rule scaled_lower [OF ne assms(2,3)])
  then have "a / pow2 u \<le> of_int (- (2 ^ (p - 1)))" using assms(1) by simp
  from rne_mono [OF this] have "rne (a / pow2 u) \<le> - (2 ^ (p - 1))" by (simp only: rne_of_int)
  then have "of_int (rne (a / pow2 u)) \<le> - ((2::real) ^ (p - 1))"
    by (metis of_int_le_iff of_int_minus of_int_numeral of_int_power)
  then have "of_int (rne (a / pow2 u)) * pow2 u \<le> - (2 ^ (p - 1)) * pow2 u"
    by (simp only: mult_le_cancel_right_pos [OF pow2_pos])
  then have h1: "of_int (rne (a / pow2 u)) * pow2 u \<le> - (2 ^ (p - 1) * pow2 u)"
    by (simp only: mult_minus_left)
  have h2: "round_to p emin a = of_int (rne (a / pow2 u)) * pow2 u"
    using ne by (simp add: round_to_def u_def)
  have h3: "2 ^ (p - 1) * pow2 u = pow2 \<lfloor>log 2 \<bar>a\<bar>\<rfloor>"
  proof -
    have "\<lfloor>log 2 \<bar>a\<bar>\<rfloor> = int (p - 1) + u" using assms(2,3) by (simp add: u_def ulp_exp_def)
    then show ?thesis by (simp only: pow2_add pow2_nat)
  qed
  show ?thesis unfolding h2 h3 [symmetric] by (rule h1)
qed

lemma round_to_same_ulp:
  assumes "a \<noteq> 0" and "b \<noteq> 0" and "a \<le> b" and "ulp_exp p emin a = ulp_exp p emin b"
  shows "round_to p emin a \<le> round_to p emin b"
proof -
  define u where "u = ulp_exp p emin b"
  have "a / pow2 u \<le> b / pow2 u" using assms(3) by (simp add: divide_right_mono)
  from rne_mono [OF this] have "real_of_int (rne (a / pow2 u)) \<le> of_int (rne (b / pow2 u))" by simp
  then have "of_int (rne (a / pow2 u)) * pow2 u \<le> of_int (rne (b / pow2 u)) * pow2 u"
    by (simp only: mult_le_cancel_right_pos [OF pow2_pos])
  then show ?thesis using assms(1,2,4) by (simp add: round_to_def u_def)
qed

lemma floor_log_mono: "0 < a \<Longrightarrow> a \<le> b \<Longrightarrow> \<lfloor>log 2 a\<rfloor> \<le> \<lfloor>log 2 b\<rfloor>"
  by (intro floor_mono) simp

lemma round_to_mono:
  assumes p: "0 < p" and ab: "a \<le> b"
  shows "round_to p emin a \<le> round_to p emin b"
proof -
  let ?Ea = "\<lfloor>log 2 \<bar>a\<bar>\<rfloor>" and ?Eb = "\<lfloor>log 2 \<bar>b\<bar>\<rfloor>"
  consider "a \<le> 0 \<and> 0 \<le> b" | "0 < a" | "b < 0" using ab by linarith
  then show ?thesis
  proof cases
    case 1
    then have "round_to p emin a \<le> 0" "0 \<le> round_to p emin b"
      by (simp_all add: round_to_sign)
    then show ?thesis by linarith
  next
    case 2
    with ab have b: "0 < b" by simp
    have E: "?Ea \<le> ?Eb" using 2 ab b floor_log_mono [of a b] by simp
    show ?thesis
    proof (cases "max ?Ea emin = max ?Eb emin")
      case True
      show ?thesis
        by (rule round_to_same_ulp) (use 2 b ab True in \<open>simp_all add: ulp_exp_def\<close>)
    next
      case False
      with E have lt: "max ?Ea emin + 1 \<le> ?Eb" and big: "emin < ?Eb" by auto
      have "round_to p emin a \<le> \<bar>round_to p emin a\<bar>" by simp
      also have "\<dots> \<le> pow2 (max ?Ea emin + 1)" by (rule round_to_upper) (use 2 in simp)
      also have "\<dots> \<le> pow2 ?Eb" using lt by (simp only: pow2_le_iff)
      also have "\<dots> \<le> round_to p emin b" by (rule round_to_lower_pos [OF b big p])
      finally show ?thesis .
    qed
  next
    case 3
    with ab have a: "a < 0" by simp
    have E: "?Eb \<le> ?Ea" using 3 ab a floor_log_mono [of "- b" "- a"] by simp
    show ?thesis
    proof (cases "max ?Ea emin = max ?Eb emin")
      case True
      show ?thesis
        by (rule round_to_same_ulp) (use 3 a ab True in \<open>simp_all add: ulp_exp_def\<close>)
    next
      case False
      with E have lt: "max ?Eb emin + 1 \<le> ?Ea" and big: "emin < ?Ea" by auto
      have "round_to p emin a \<le> - pow2 ?Ea" by (rule round_to_lower_neg [OF a big p])
      also have "\<dots> \<le> - pow2 (max ?Eb emin + 1)" using lt by (simp only: neg_le_iff_le pow2_le_iff)
      also have "\<dots> \<le> round_to p emin b"
        using round_to_upper [of b p emin] 3 by linarith
      finally show ?thesis .
    qed
  qed
qed

lemma round_to_eval:
  assumes "pow2 e \<le> \<bar>a\<bar>" and "\<bar>a\<bar> < pow2 (e + 1)" and "emin \<le> e"
  shows "round_to p emin a = of_int (rne (a / pow2 (e - (int p - 1)))) * pow2 (e - (int p - 1))"
proof -
  have ne: "a \<noteq> 0"
  proof
    assume "a = 0"
    with assms(1) have "pow2 e \<le> 0" by simp
    with pow2_pos [of e] show False by linarith
  qed
  have "\<lfloor>log 2 \<bar>a\<bar>\<rfloor> = e" by (rule floor_log_unique [OF assms(1,2)])
  then have "ulp_exp p emin a = e - (int p - 1)" using assms(3) by (simp add: ulp_exp_def)
  then show ?thesis using ne by (simp add: round_to_def)
qed

lemma f64_eval_neg:
  assumes "1 / 2 ^ k \<le> \<bar>a\<bar>" and "\<bar>a\<bar> < 2 / 2 ^ k" and "k \<le> 1022"
  shows "f64 a = of_int (rne (a * 2 ^ (k + 52))) / 2 ^ (k + 52)"
proof -
  have 1: "pow2 (- int k) \<le> \<bar>a\<bar>" using assms(1) by (simp add: pow2_neg_nat)
  have "pow2 (- int k + 1) = 2 / 2 ^ k" using pow2_add [of "- int k" 1] pow2_nat [of 1]
    by (simp add: pow2_neg_nat)
  then have 2: "\<bar>a\<bar> < pow2 (- int k + 1)" using assms(2) by simp
  have e: "- int k - (int 53 - 1) = - int (k + 52)" by simp
  from round_to_eval [OF 1 2, of "- 1022" 53] assms(3) show ?thesis
    unfolding f64_def e pow2_neg_nat by simp
qed


lemma f32_eval_neg:
  assumes "1 / 2 ^ k \<le> \<bar>a\<bar>" and "\<bar>a\<bar> < 2 / 2 ^ k" and "k \<le> 126"
  shows "f32 a = of_int (rne (a * 2 ^ (k + 23))) / 2 ^ (k + 23)"
proof -
  have 1: "pow2 (- int k) \<le> \<bar>a\<bar>" using assms(1) by (simp add: pow2_neg_nat)
  have "pow2 (- int k + 1) = 2 / 2 ^ k" using pow2_add [of "- int k" 1] pow2_nat [of 1]
    by (simp add: pow2_neg_nat)
  then have 2: "\<bar>a\<bar> < pow2 (- int k + 1)" using assms(2) by simp
  have e: "- int k - (int 24 - 1) = - int (k + 23)" by simp
  from round_to_eval [OF 1 2, of "- 126" 24] assms(3) show ?thesis
    unfolding f32_def e pow2_neg_nat by simp
qed

lemma f32_eval_pos:
  assumes "2 ^ k \<le> \<bar>a\<bar>" and "\<bar>a\<bar> < 2 * 2 ^ k" and "k \<le> 23"
  shows "f32 a = of_int (rne (a * 2 ^ (23 - k))) / 2 ^ (23 - k)"
proof -
  have 1: "pow2 (int k) \<le> \<bar>a\<bar>" using assms(1) by (simp add: pow2_nat)
  have "pow2 (int k + 1) = 2 * 2 ^ k" using pow2_add [of "int k" 1] pow2_nat [of 1]
    by (simp add: pow2_nat)
  then have 2: "\<bar>a\<bar> < pow2 (int k + 1)" using assms(2) by simp
  have e: "int k - (int 24 - 1) = - int (23 - k)" using assms(3) by simp
  from round_to_eval [OF 1 2, of "- 126" 24] show ?thesis
    unfolding f32_def e pow2_neg_nat by simp
qed

lemma f32_0 [simp]: "f32 0 = 0" by (simp add: f32_def)
lemma f64_0 [simp]: "f64 0 = 0" by (simp add: f64_def)

lemma f32_mono: "a \<le> b \<Longrightarrow> f32 a \<le> f32 b"
  unfolding f32_def by (rule round_to_mono) simp_all

lemma f64_mono: "a \<le> b \<Longrightarrow> f64 a \<le> f64 b"
  unfolding f64_def by (rule round_to_mono) simp_all

lemma f32_int: "\<bar>n\<bar> \<le> 2 ^ 24 \<Longrightarrow> f32 (of_int n) = of_int n"
proof (cases "\<bar>n\<bar> < 2 ^ 24")
  case True
  then show ?thesis unfolding f32_def by (intro round_to_int) simp_all
next
  case False
  assume "\<bar>n\<bar> \<le> 2 ^ 24"
  with False have n: "n = 2 ^ 24 \<or> n = - (2 ^ 24)" by linarith
  have "round_to 24 (- 126) (of_int n) = of_int n"
    by (rule round_to_exact [where m = "n div 2" and e = 1])
       (use n in \<open>auto simp: pow2_def\<close>)
  then show ?thesis by (simp add: f32_def)
qed

lemma f64_int: "\<bar>n\<bar> \<le> 2 ^ 53 \<Longrightarrow> f64 (of_int n) = of_int n"
proof (cases "\<bar>n\<bar> < 2 ^ 53")
  case True
  then show ?thesis unfolding f64_def by (intro round_to_int) simp_all
next
  case False
  assume "\<bar>n\<bar> \<le> 2 ^ 53"
  with False have n: "n = 2 ^ 53 \<or> n = - (2 ^ 53)" by linarith
  have "round_to 53 (- 1022) (of_int n) = of_int n"
    by (rule round_to_exact [where m = "n div 2" and e = 1])
       (use n in \<open>auto simp: pow2_def\<close>)
  then show ?thesis by (simp add: f64_def)
qed

lemma f32_dyadic: "\<bar>n\<bar> < 2 ^ 24 \<Longrightarrow> k \<le> 149 \<Longrightarrow> f32 (of_int n / 2 ^ k) = of_int n / 2 ^ k"
  unfolding f32_def by (rule round_to_dyadic) simp_all

lemma f64_dyadic: "\<bar>n\<bar> < 2 ^ 53 \<Longrightarrow> k \<le> 1074 \<Longrightarrow> f64 (of_int n / 2 ^ k) = of_int n / 2 ^ k"
  unfolding f64_def by (rule round_to_dyadic) simp_all

lemma f64_tenth: "f64 (1 / 10) = 3602879701896397 / 2 ^ 55"
  using f64_eval_neg [of 4 "1 / 10"] by (simp add: rne_def)





lemma f32_below_one: "f32 (1 - 1 / 2 ^ 27) = 1"
  using f32_eval_neg [of 1 "1 - 1 / 2 ^ 27"] by (simp add: rne_def)

lemma f32_numeral: "numeral n \<le> (2 ^ 24 :: int) \<Longrightarrow> f32 (numeral n) = numeral n"
  using f32_int [of "numeral n"] by simp

lemma f64_numeral: "numeral n \<le> (2 ^ 53 :: int) \<Longrightarrow> f64 (numeral n) = numeral n"
  using f64_int [of "numeral n"] by simp

lemma f32_1 [simp]: "f32 1 = 1"
  using f32_int [of 1] by simp

lemma f64_1 [simp]: "f64 1 = 1"
  using f64_int [of 1] by simp

section \<open>The camera estimator\<close>

subsection \<open>The loops collect the surviving ratios\<close>

lemma indices_ok_tl: "indices_ok kp kc ms \<Longrightarrow> indices_ok kp kc (tl ms)"
  by (cases ms) (simp_all add: indices_ok_def)

lemma indices_ok_butlast: "indices_ok kp kc ms \<Longrightarrow> indices_ok kp kc (butlast ms)"
  by (auto simp: indices_ok_def list_all_iff dest: in_set_butlastD)

lemma f32_pow2: "f32 (2 ^ n) = 2 ^ n"
proof -
  have "round_to 24 (- 126) (2 ^ n) = 2 ^ n"
    by (rule round_to_exact [where m = 1 and e = "int n"]) (simp_all add: pow2_nat)
  then show ?thesis by (simp add: f32_def)
qed

lemma f32_neg_pow2: "f32 (- (2 ^ n)) = - (2 ^ n)"
proof -
  have "round_to 24 (- 126) (- (2 ^ n)) = - (2 ^ n)"
    by (rule round_to_exact [where m = "- 1" and e = "int n"]) (simp_all add: pow2_nat)
  then show ?thesis by (simp add: f32_def)
qed

lemma f32_abs_le: "\<bar>a\<bar> \<le> 2 ^ n \<Longrightarrow> \<bar>f32 a\<bar> \<le> 2 ^ n"
proof -
  assume "\<bar>a\<bar> \<le> 2 ^ n"
  then have "- (2 ^ n) \<le> a" and "a \<le> 2 ^ n" by linarith+
  then have "f32 (- (2 ^ n)) \<le> f32 a" and "f32 a \<le> f32 (2 ^ n)" by (simp_all only: f32_mono)
  then show ?thesis by (simp only: f32_pow2 f32_neg_pow2)
qed

lemma Point2f_sub_ok:
  assumes "\<bar>Point2f.x a\<bar> \<le> 2 ^ 126" and "\<bar>Point2f.y a\<bar> \<le> 2 ^ 126"
    and "\<bar>Point2f.x b\<bar> \<le> 2 ^ 126" and "\<bar>Point2f.y b\<bar> \<le> 2 ^ 126"
  shows "Point2f_sub a b = Inr (Point2f_diff a b)"
proof -
  have p: "(2 :: real) ^ 127 = 2 * 2 ^ 126" by simp
  have "\<bar>Point2f.x a - Point2f.x b\<bar> \<le> 2 ^ 127" using assms(1,3) unfolding p by linarith
  then have x: "\<bar>f32 (Point2f.x a - Point2f.x b)\<bar> \<le> 2 ^ 127" by (rule f32_abs_le)
  have "\<bar>Point2f.y a - Point2f.y b\<bar> \<le> 2 ^ 127" using assms(2,4) unfolding p by linarith
  then have y: "\<bar>f32 (Point2f.y a - Point2f.y b)\<bar> \<le> 2 ^ 127" by (rule f32_abs_le)
  have lt: "(2 :: real) ^ 127 < 2 ^ 128" by simp
  from x y lt have "\<bar>f32 (Point2f.x a - Point2f.x b)\<bar> < 2 ^ 128 \<and> \<bar>f32 (Point2f.y a - Point2f.y b)\<bar> < 2 ^ 128"
    by linarith
  then show ?thesis
    unfolding Point2f_sub_def Point2f_diff_def Let_def by simp
qed

lemma coords_ok_nth:
  "coords_ok kpts \<Longrightarrow> 0 \<le> i \<Longrightarrow> i < int (length kpts) \<Longrightarrow>
   \<bar>Point2f.x (pt (kpts ! nat i))\<bar> \<le> 2 ^ 126 \<and> \<bar>Point2f.y (pt (kpts ! nat i))\<bar> \<le> 2 ^ 126"
  by (simp add: coords_ok_def list_all_length)

lemma sub_nth:
  assumes "coords_ok kpts" and "0 \<le> i" and "i < int (length kpts)"
    and "0 \<le> j" and "j < int (length kpts)"
  shows "Point2f_sub (pt (kpts ! nat i)) (pt (kpts ! nat j))
           = Inr (Point2f_diff (pt (kpts ! nat i)) (pt (kpts ! nat j)))"
  using coords_ok_nth [OF assms(1,2,3)] coords_ok_nth [OF assms(1,4,5)]
  by (intro Point2f_sub_ok) simp_all

lemma inner_eq:
  assumes c: "coords_ok kp" "coords_ok kc" and m1: "indices_ok kp kc [m1]"
  shows "indices_ok kp kc ms \<Longrightarrow>
   computeTTCCamera_inner kp kc (kc ! nat (trainIdx m1)) (kp ! nat (queryIdx m1)) ms rs =
     Inr (rs @ map (ratio_of kp kc m1) (filter (kept kp kc m1) ms))"
proof (induction ms arbitrary: rs)
  case Nil
  then show ?case by simp
next
  case (Cons it2 rest)
  from Cons.prems have okr: "indices_ok kp kc rest"
    and i2: "0 \<le> trainIdx it2" "trainIdx it2 < int (length kc)"
            "0 \<le> queryIdx it2" "queryIdx it2 < int (length kp)"
    by (simp_all add: indices_ok_def)
  from m1 have i1: "0 \<le> trainIdx m1" "trainIdx m1 < int (length kc)"
            "0 \<le> queryIdx m1" "queryIdx m1 < int (length kp)"
    by (simp_all add: indices_ok_def)
  have v1: "vec_at kc (trainIdx it2) = Inr (kc ! nat (trainIdx it2))"
    and v2: "vec_at kp (queryIdx it2) = Inr (kp ! nat (queryIdx it2))"
    using i2 by (simp_all add: vec_at_def)
  note s1 = sub_nth [OF c(2) i1(1,2) i2(1,2)]
  note s2 = sub_nth [OF c(1) i1(3,4) i2(3,4)]
  have step: "computeTTCCamera_inner kp kc (kc ! nat (trainIdx m1)) (kp ! nat (queryIdx m1))
                (it2 # rest) rs =
              computeTTCCamera_inner kp kc (kc ! nat (trainIdx m1)) (kp ! nat (queryIdx m1)) rest
                (if kept kp kc m1 it2 then rs @ [ratio_of kp kc m1 it2] else rs)"
    by (simp add: v1 v2 s1 s2 kept_def ratio_of_def distCurr_of_def distPrev_of_def Let_def)
  show ?case
    unfolding step by (simp add: Cons.IH [OF okr])
qed

lemma outer_eq:
  assumes c: "coords_ok kp" "coords_ok kc"
  shows "indices_ok kp kc its \<Longrightarrow> indices_ok kp kc (tl ms) \<Longrightarrow>
   computeTTCCamera_outer kp kc ms its rs =
     Inr (rs @ concat (map (\<lambda>m1. map (ratio_of kp kc m1) (filter (kept kp kc m1) (tl ms))) its))"
proof (induction its arbitrary: rs)
  case Nil
  then show ?case by simp
next
  case (Cons it1 rest)
  from Cons.prems have ok1: "indices_ok kp kc [it1]" and okr: "indices_ok kp kc rest"
    by (simp_all add: indices_ok_def)
  have v1: "vec_at kc (trainIdx it1) = Inr (kc ! nat (trainIdx it1))"
    and v2: "vec_at kp (queryIdx it1) = Inr (kp ! nat (queryIdx it1))"
    using ok1 by (simp_all add: indices_ok_def vec_at_def)
  show ?case
    by (simp add: v1 v2 inner_eq [OF c ok1 Cons.prems(2)] Cons.IH [OF okr Cons.prems(2)])
qed

lemma ratios_of_append:
  "ratios_of kp kc (ps @ qs) = ratios_of kp kc ps @ ratios_of kp kc qs"
  by (simp add: ratios_of_def)

lemma ratios_of_row:
  "ratios_of kp kc (map (\<lambda>m2. (m1, m2)) ms) = map (ratio_of kp kc m1) (filter (kept kp kc m1) ms)"
  by (induction ms) (simp_all add: ratios_of_def)

lemma ratios_of_rows:
  "ratios_of kp kc (concat (map (\<lambda>m1. map (\<lambda>m2. (m1, m2)) ms) its))
     = concat (map (\<lambda>m1. map (ratio_of kp kc m1) (filter (kept kp kc m1) ms)) its)"
  by (induction its) (simp_all add: ratios_of_append ratios_of_row, simp add: ratios_of_def)

lemma distRatios_eq:
  "ms \<noteq> [] \<Longrightarrow> indices_ok kp kc ms \<Longrightarrow> coords_ok kp \<Longrightarrow> coords_ok kc \<Longrightarrow>
   computeTTCCamera_distRatios kp kc ms = Inr (surviving_ratios kp kc ms)"
  by (simp add: computeTTCCamera_distRatios_def surviving_ratios_def loop_pairs_def
        ratios_of_rows outer_eq indices_ok_tl indices_ok_butlast)

subsection \<open>The median and the formula\<close>

lemma odd_half: "n mod 2 = Suc 0 \<Longrightarrow> (n - Suc 0) div 2 = n div 2" for n :: nat
  by presburger

lemma median_code_double:
  "(if length (sort rs) mod 2 = 0
    then ddiv64 (fl64 (sort rs ! (length (sort rs) div 2 - 1) + sort rs ! (length (sort rs) div 2)))
           (Fin 2)
    else Fin (sort rs ! (length (sort rs) div 2))) = median_double rs"
  by (simp add: median_double_def Let_def odd_half even_iff_mod_2_eq_zero odd_iff_mod_2_eq_one)

lemma fromRatios_median:
  "rs \<noteq> [] \<Longrightarrow> computeTTCCamera_fromRatios rs fr =
     ddiv64 (dneg (ddiv64 (Fin 1) (Fin fr))) (dsub64 (Fin 1) (median_double rs))"
  unfolding computeTTCCamera_fromRatios_def Let_def median_code_double
  by (simp del: ddiv.simps dneg.simps dsub64.simps)


subsection \<open>The example of the specification in doubles\<close>



subsection \<open>The value written to the result\<close>

lemma camera_value:
  assumes "indices_ok kp kc ms" and "coords_ok kp" and "coords_ok kc"
    and "surviving_ratios kp kc ms \<noteq> []"
  shows "computeTTCCamera kp kc ms fr =
           Inr (ddiv64 (dneg (ddiv64 (Fin 1) (Fin fr)))
                  (dsub64 (Fin 1) (median_double (surviving_ratios kp kc ms))))"
proof -
  from assms(4) have "ms \<noteq> []"
    by (auto simp: surviving_ratios_def loop_pairs_def ratios_of_def)
  with assms show ?thesis
    by (simp add: computeTTCCamera_def distRatios_eq fromRatios_median)
qed


subsection \<open>Keypoints on a horizontal line\<close>

lemma f32_neg_numeral: "numeral n \<le> (2 ^ 24 :: int) \<Longrightarrow> f32 (- numeral n) = - numeral n"
  using f32_int [of "- numeral n"] by simp


lemma cv_norm_horizontal:
  assumes "\<bar>d\<bar> \<le> 2 ^ 26"
  shows "cv_norm \<lparr>Point2f.x = of_int d, Point2f.y = 0\<rparr> = of_int \<bar>d\<bar>"
proof -
  have "\<bar>d * d\<bar> = \<bar>d\<bar> * \<bar>d\<bar>" by (simp add: abs_mult)
  also have "\<dots> \<le> 2 ^ 26 * 2 ^ 26" using assms by (intro mult_mono) simp_all
  finally have "\<bar>d * d\<bar> \<le> 2 ^ 53" by simp
  from f64_int [OF this] have sq: "f64 (of_int d * of_int d) = of_int d * of_int d" by simp
  have "\<bar>\<bar>d\<bar>\<bar> \<le> (2 :: int) ^ 53" using assms by simp
  from f64_int [OF this] have ab: "f64 \<bar>of_int d\<bar> = \<bar>of_int d\<bar>" by simp
  show ?thesis
    by (simp add: cv_norm_def sq ab)
qed

lemma cv_norm_numeral:
  "numeral n \<le> (2 ^ 26 :: int) \<Longrightarrow> cv_norm \<lparr>Point2f.x = numeral n, Point2f.y = 0\<rparr> = numeral n"
  using cv_norm_horizontal [of "numeral n"] by simp

lemma cv_norm_neg_numeral:
  "numeral n \<le> (2 ^ 26 :: int) \<Longrightarrow> cv_norm \<lparr>Point2f.x = - numeral n, Point2f.y = 0\<rparr> = numeral n"
  using cv_norm_horizontal [of "- numeral n"] by simp

lemma cv_norm_zero: "cv_norm \<lparr>Point2f.x = 0, Point2f.y = 0\<rparr> = 0"
  using cv_norm_horizontal [of 0] by simp

lemmas line_simps =
  Point2f_diff_def kept_def ratio_of_def distCurr_of_def distPrev_of_def DBL_EPSILON_def
  f32_numeral f32_neg_numeral f64_numeral cv_norm_numeral cv_norm_neg_numeral cv_norm_zero










section \<open>The lidar estimator\<close>

lemma map_sort_key: "map f (sort_key f v) = sort (map f v)"
  by (rule properties_for_sort [symmetric]) simp_all







subsection \<open>What the call leaves in the caller's vectors\<close>

text \<open>
  Every ordering of equal keys that \<open>std::sort\<close> may choose has the same \<open>x\<close> values in
  the same places as the model's.
\<close>

lemma std_sort_x_any_order:
  "mset w = mset v \<Longrightarrow> sorted (map LidarPoint.x w) \<Longrightarrow>
   map LidarPoint.x w = map LidarPoint.x (std_sort_x v)"
proof -
  assume a: "mset w = mset v" and s: "sorted (map LidarPoint.x w)"
  have "sort (map LidarPoint.x v) = map LidarPoint.x w"
    by (rule properties_for_sort) (simp_all add: a s)
  then show ?thesis by (simp add: std_sort_x_def map_sort_key)
qed

lemma computeTTCLidar_Inr_vectors:
  "computeTTCLidar lpPrev lpCurr fr = Inr out \<Longrightarrow>
   lidarPointsPrev out = std_sort_x lpPrev \<and> lidarPointsCurr out = std_sort_x lpCurr"
  by (auto simp: computeTTCLidar_def Let_def split: sum.splits)

text \<open>
  Claim C9, amended. A call of \<open>computeTTCLidar\<close> that returns leaves each of the
  caller's two point vectors with the points it had (the same multiset) and in ascending
  order of \<open>x\<close>: the \<open>x\<close> values are those of the input, sorted.
\<close>

theorem computeTTCLidar_sorts_callers_vectors:
  assumes "computeTTCLidar lpPrev lpCurr frameRate = Inr out"
  shows "mset (lidarPointsPrev out) = mset lpPrev
       \<and> map LidarPoint.x (lidarPointsPrev out) = sort (map LidarPoint.x lpPrev)
       \<and> mset (lidarPointsCurr out) = mset lpCurr
       \<and> map LidarPoint.x (lidarPointsCurr out) = sort (map LidarPoint.x lpCurr)"
  using computeTTCLidar_Inr_vectors [OF assms]
  by (simp add: std_sort_x_def map_sort_key)

theorem computeTTCLidar_sorts_callers_vectors_witness:
  "mset [\<lparr>LidarPoint.x = 74 / 10, LidarPoint.y = 0, z = 0, r = 0\<rparr>,
         \<lparr>LidarPoint.x = 76 / 10, LidarPoint.y = 0, z = 0, r = 0\<rparr>]
     = mset [\<lparr>LidarPoint.x = 76 / 10, LidarPoint.y = 0, z = 0, r = 0\<rparr>,
             \<lparr>LidarPoint.x = 74 / 10, LidarPoint.y = 0, z = 0, r = 0\<rparr>]
   \<and> map LidarPoint.x [\<lparr>LidarPoint.x = 74 / 10, LidarPoint.y = 0, z = 0, r = 0\<rparr>,
         \<lparr>LidarPoint.x = 76 / 10, LidarPoint.y = 0, z = 0, r = 0\<rparr>]
     = sort (map LidarPoint.x [\<lparr>LidarPoint.x = 76 / 10, LidarPoint.y = 0, z = 0, r = 0\<rparr>,
             \<lparr>LidarPoint.x = 74 / 10, LidarPoint.y = 0, z = 0, r = 0\<rparr>])"
proof -
  let ?prev = "[\<lparr>LidarPoint.x = 8, LidarPoint.y = 0, z = 0, r = 0\<rparr>]"
  let ?a = "\<lparr>LidarPoint.x = 76 / 10, LidarPoint.y = 0, z = 0, r = 0\<rparr>"
  let ?b = "\<lparr>LidarPoint.x = 74 / 10, LidarPoint.y = 0, z = 0, r = 0\<rparr>"
  have run: "computeTTCLidar ?prev [?a, ?b] 10 =
          Inr \<lparr>lidarPointsPrev = ?prev, lidarPointsCurr = [?b, ?a], TTC = Fin (3 / 2)\<rparr>"
    by (simp add: computeTTCLidar_def medianX_def std_sort_x_def vec_at_def Let_def)
  from computeTTCLidar_sorts_callers_vectors [OF run] show ?thesis by simp
qed

theorem computeTTCLidar_reorders_counterexample:
  "computeTTCLidar [\<lparr>LidarPoint.x = 8, LidarPoint.y = 0, z = 0, r = 0\<rparr>]
     [\<lparr>LidarPoint.x = 76 / 10, LidarPoint.y = 0, z = 0, r = 0\<rparr>,
      \<lparr>LidarPoint.x = 74 / 10, LidarPoint.y = 0, z = 0, r = 0\<rparr>] 10 =
     Inr \<lparr>lidarPointsPrev = [\<lparr>LidarPoint.x = 8, LidarPoint.y = 0, z = 0, r = 0\<rparr>],
          lidarPointsCurr = [\<lparr>LidarPoint.x = 74 / 10, LidarPoint.y = 0, z = 0, r = 0\<rparr>,
                             \<lparr>LidarPoint.x = 76 / 10, LidarPoint.y = 0, z = 0, r = 0\<rparr>],
          TTC = Fin (3 / 2)\<rparr>
   \<and> [\<lparr>LidarPoint.x = 74 / 10, LidarPoint.y = 0, z = 0, r = 0\<rparr>,
      \<lparr>LidarPoint.x = 76 / 10, LidarPoint.y = 0, z = 0, r = 0\<rparr>]
     \<noteq> [\<lparr>LidarPoint.x = 76 / 10, LidarPoint.y = 0, z = 0, r = 0\<rparr>,
        \<lparr>LidarPoint.x = 74 / 10, LidarPoint.y = 0, z = 0, r = 0\<rparr>]"
  by (simp add: computeTTCLidar_def medianX_def std_sort_x_def vec_at_def Let_def)

section \<open>The not-a-number signal of the estimators\<close>

lemma fl64_not_NaN [simp]: "fl64 a \<noteq> NaN"
  by (simp add: fl64_def)

lemma fl64_0 [simp]: "fl64 0 = Fin 0"
  by (simp add: fl64_def)

lemma dround_NaN_iff [simp]: "(dround d = NaN) = (d = NaN)"
  by (cases d) simp_all

lemma median_double_not_NaN: "median_double rs \<noteq> NaN"
proof -
  have "ddiv64 (fl64 a) (Fin 2) \<noteq> NaN" for a
    by (simp add: ddiv64_def fl64_def)
  then show ?thesis by (simp add: median_double_def Let_def)
qed

lemma dsub64_one_not_NaN: "m \<noteq> NaN \<Longrightarrow> dsub64 (Fin 1) m \<noteq> NaN"
  by (cases m) simp_all

lemma ddiv64_not_NaN: "t \<noteq> 0 \<Longrightarrow> d \<noteq> NaN \<Longrightarrow> ddiv64 (Fin t) d \<noteq> NaN"
  by (cases d) (simp_all add: ddiv64_def)

lemma f64_abs_le: "\<bar>a\<bar> \<le> 2 ^ n \<Longrightarrow> \<bar>f64 a\<bar> \<le> 2 ^ n"
proof -
  assume "\<bar>a\<bar> \<le> 2 ^ n"
  then have "- (2 ^ n) \<le> a" and "a \<le> 2 ^ n" by linarith+
  then have 1: "f64 (- (2 ^ n)) \<le> f64 a" and 2: "f64 a \<le> f64 (2 ^ n)" by (simp_all only: f64_mono)
  have "round_to 53 (- 1022) (2 ^ n) = 2 ^ n"
    by (rule round_to_exact [where m = 1 and e = "int n"]) (simp_all add: pow2_nat)
  then have p: "f64 (2 ^ n) = 2 ^ n" by (simp add: f64_def)
  have "round_to 53 (- 1022) (- (2 ^ n)) = - (2 ^ n)"
    by (rule round_to_exact [where m = "- 1" and e = "int n"]) (simp_all add: pow2_nat)
  then have q: "f64 (- (2 ^ n)) = - (2 ^ n)" by (simp add: f64_def)
  from 1 2 show ?thesis unfolding p q by linarith
qed

lemma f64_abs_ge: "1 / 2 ^ n \<le> \<bar>a\<bar> \<Longrightarrow> n \<le> 1074 \<Longrightarrow> 1 / 2 ^ n \<le> \<bar>f64 a\<bar>"
proof -
  assume a: "1 / 2 ^ n \<le> \<bar>a\<bar>" and n: "n \<le> 1074"
  have p: "f64 (1 / 2 ^ n) = 1 / 2 ^ n" using f64_dyadic [of 1 n] n by simp
  have q: "f64 (- (1 / 2 ^ n)) = - (1 / 2 ^ n)" using f64_dyadic [of "- 1" n] n by simp
  from a consider "1 / 2 ^ n \<le> a" | "a \<le> - (1 / 2 ^ n)" by linarith
  then show ?thesis
  proof cases
    case 1
    from f64_mono [OF this] show ?thesis unfolding p by linarith
  next
    case 2
    from f64_mono [OF this] show ?thesis unfolding q by linarith
  qed
qed

text \<open>For a frame rate that is a normal double, \<open>dT\<close> is a finite double and not zero.\<close>

lemma dT_finite:
  assumes "1 / 2 ^ 1022 \<le> \<bar>fr\<bar>" and "\<bar>fr\<bar> \<le> 2 ^ 1024"
  shows "\<exists>t. t \<noteq> 0 \<and> ddiv64 (Fin 1) (Fin fr) = Fin t"
proof -
  define lo :: real where "lo = 1 / 2 ^ 1022"
  define hi :: real where "hi = 2 ^ 1024"
  have lo: "0 < lo" and hi: "0 < hi" by (simp_all add: lo_def hi_def)
  from assms have b: "lo \<le> \<bar>fr\<bar>" "\<bar>fr\<bar> \<le> hi" by (simp_all only: lo_def hi_def)
  from b(1) lo have pos: "0 < \<bar>fr\<bar>" by linarith
  then have ne: "fr \<noteq> 0" by auto
  have "1 / \<bar>fr\<bar> \<le> 1 / lo" using b(1) lo by (intro divide_left_mono mult_pos_pos) simp_all
  also have "1 / lo = 2 ^ 1022" by (simp only: lo_def divide_divide_eq_right mult_1 div_by_1)
  finally have up: "\<bar>1 / fr\<bar> \<le> 2 ^ 1022" by (simp only: abs_divide abs_one)
  have "1 / hi \<le> 1 / \<bar>fr\<bar>" using b(2) pos hi by (intro divide_left_mono mult_pos_pos) simp_all
  then have low: "1 / 2 ^ 1024 \<le> \<bar>1 / fr\<bar>" by (simp only: hi_def abs_divide abs_one)
  have "(2 :: real) ^ 1022 < 2 ^ 1024" by (rule power_strict_increasing) simp_all
  with f64_abs_le [OF up] have "\<bar>f64 (1 / fr)\<bar> < 2 ^ 1024" by (rule le_less_trans)
  then have "\<not> 2 ^ 1024 \<le> \<bar>f64 (1 / fr)\<bar>" by (rule less_le_not_le [THEN iffD1, THEN conjunct2])
  then have f: "fl64 (1 / fr) = Fin (f64 (1 / fr))" unfolding fl64_def by (rule if_not_P)
  have "ddiv (Fin 1) (Fin fr) = Fin (1 / fr)" using ne by simp
  then have fin: "ddiv64 (Fin 1) (Fin fr) = Fin (f64 (1 / fr))"
    unfolding ddiv64_def by (simp only: dround.simps f)
  have "(0 :: real) < 1 / 2 ^ 1024" by (intro divide_pos_pos zero_less_power) simp_all
  with f64_abs_ge [OF low] have "0 < \<bar>f64 (1 / fr)\<bar>" by simp
  then have "f64 (1 / fr) \<noteq> 0" by auto
  with fin show ?thesis by blast
qed

lemma formula_not_NaN:
  assumes "1 / 2 ^ 1022 \<le> \<bar>fr\<bar>" and "\<bar>fr\<bar> \<le> 2 ^ 1024"
  shows "ddiv64 (dneg (ddiv64 (Fin 1) (Fin fr))) (dsub64 (Fin 1) (median_double rs)) \<noteq> NaN"
proof -
  from dT_finite [OF assms] obtain t where t: "t \<noteq> 0" "ddiv64 (Fin 1) (Fin fr) = Fin t" by blast
  have x: "ddiv64 (Fin (- t)) (dsub64 (Fin 1) (median_double rs)) \<noteq> NaN"
    by (rule ddiv64_not_NaN) (use t in \<open>simp_all add: dsub64_one_not_NaN median_double_not_NaN\<close>)
  show ?thesis unfolding t dneg.simps by (rule x)
qed

lemma median_double_single: "median_double [q] = Fin q"
  by (simp add: median_double_def)

text \<open>
  Claim C6, amended. For a non-empty vector of correspondences whose indices lie inside the
  keypoint vectors, keypoint coordinates of at most \<open>2 ^ 126\<close> in absolute value and a
  frame rate that is a normal double, \<open>computeTTCCamera\<close> writes the not-a-number value
  to \<open>TTC\<close> exactly when no distance ratio survives; with a single surviving ratio \<open>q\<close> it
  writes the value \<open>- dT / (1 - q)\<close> of the formula.
\<close>

theorem computeTTCCamera_NaN_iff_none_survives:
  assumes "ms \<noteq> []" and "indices_ok kp kc ms" and "coords_ok kp" and "coords_ok kc"
    and "1 / 2 ^ 1022 \<le> \<bar>frameRate\<bar>" and "\<bar>frameRate\<bar> \<le> 2 ^ 1024"
  shows "(computeTTCCamera kp kc ms frameRate = Inr NaN) = (surviving_ratios kp kc ms = [])
       \<and> (\<forall>q. surviving_ratios kp kc ms = [q] \<longrightarrow>
             computeTTCCamera kp kc ms frameRate =
               Inr (ddiv64 (dneg (ddiv64 (Fin 1) (Fin frameRate))) (dsub64 (Fin 1) (Fin q)))
           \<and> computeTTCCamera kp kc ms frameRate \<noteq> Inr NaN)"
proof -
  have run: "computeTTCCamera kp kc ms frameRate
               = Inr (computeTTCCamera_fromRatios (surviving_ratios kp kc ms) frameRate)"
    using assms(1-4) by (simp add: computeTTCCamera_def distRatios_eq)
  have some: "computeTTCCamera kp kc ms frameRate =
                Inr (ddiv64 (dneg (ddiv64 (Fin 1) (Fin frameRate)))
                       (dsub64 (Fin 1) (median_double (surviving_ratios kp kc ms))))"
    if "surviving_ratios kp kc ms \<noteq> []"
    unfolding run fromRatios_median [OF that] ..
  have iff: "(computeTTCCamera kp kc ms frameRate = Inr NaN) = (surviving_ratios kp kc ms = [])"
  proof (cases "surviving_ratios kp kc ms = []")
    case True
    then show ?thesis by (simp add: run computeTTCCamera_fromRatios_def)
  next
    case False
    from some [OF False] formula_not_NaN [OF assms(5,6), of "surviving_ratios kp kc ms"] False
    show ?thesis by simp
  qed
  show ?thesis
  proof (intro conjI allI impI)
    show "(computeTTCCamera kp kc ms frameRate = Inr NaN) = (surviving_ratios kp kc ms = [])"
      by (rule iff)
  next
    fix q assume q: "surviving_ratios kp kc ms = [q]"
    then have ne: "surviving_ratios kp kc ms \<noteq> []" by simp
    show "computeTTCCamera kp kc ms frameRate =
               Inr (ddiv64 (dneg (ddiv64 (Fin 1) (Fin frameRate))) (dsub64 (Fin 1) (Fin q)))"
      unfolding some [OF ne] q median_double_single ..
    show "computeTTCCamera kp kc ms frameRate \<noteq> Inr NaN"
      using iff ne by simp
  qed
qed

text \<open>
  Two correspondences on a horizontal line, 200 pixels apart before and 300 pixels apart
  now: the single ratio 1.5 survives, and at the frame rate 10 the result is the double
  0.2. With the current keypoints 50 pixels apart no ratio survives.
\<close>

lemma one_ratio:
  "surviving_ratios
     [\<lparr>pt = \<lparr>Point2f.x = 0, Point2f.y = 0\<rparr>\<rparr>, \<lparr>pt = \<lparr>Point2f.x = 200, Point2f.y = 0\<rparr>\<rparr>]
     [\<lparr>pt = \<lparr>Point2f.x = 0, Point2f.y = 0\<rparr>\<rparr>, \<lparr>pt = \<lparr>Point2f.x = 300, Point2f.y = 0\<rparr>\<rparr>]
     [\<lparr>queryIdx = 0, trainIdx = 0, imgIdx = 0, distance = 1\<rparr>,
      \<lparr>queryIdx = 1, trainIdx = 1, imgIdx = 0, distance = 1\<rparr>] = [3 / 2]"
proof -
  have "f64 (3 / 2) = 3 / 2" using f64_dyadic [of 3 1] by simp
  then show ?thesis
    by (simp add: surviving_ratios_def loop_pairs_def ratios_of_def line_simps)
qed

lemma no_ratio:
  "surviving_ratios
     [\<lparr>pt = \<lparr>Point2f.x = 0, Point2f.y = 0\<rparr>\<rparr>, \<lparr>pt = \<lparr>Point2f.x = 200, Point2f.y = 0\<rparr>\<rparr>]
     [\<lparr>pt = \<lparr>Point2f.x = 0, Point2f.y = 0\<rparr>\<rparr>, \<lparr>pt = \<lparr>Point2f.x = 50, Point2f.y = 0\<rparr>\<rparr>]
     [\<lparr>queryIdx = 0, trainIdx = 0, imgIdx = 0, distance = 1\<rparr>,
      \<lparr>queryIdx = 1, trainIdx = 1, imgIdx = 0, distance = 1\<rparr>] = []"
  by (simp add: surviving_ratios_def loop_pairs_def ratios_of_def line_simps)

lemma one_ratio_formula:
  "ddiv64 (dneg (ddiv64 (Fin 1) (Fin 10))) (dsub64 (Fin 1) (Fin (3 / 2)))
     = Fin (3602879701896397 / 2 ^ 54)"
proof -
  have dT: "ddiv64 (Fin 1) (Fin 10) = Fin (3602879701896397 / 2 ^ 55)"
    by (simp add: ddiv64_def fl64_def f64_tenth)
  have d: "f64 (1 - 3 / 2) = - (1 / 2)" using f64_dyadic [of "- 1" 1] by simp
  have den: "dsub64 (Fin 1) (Fin (3 / 2)) = Fin (- (1 / 2))"
    unfolding dsub64.simps fl64_def d by simp
  have q: "f64 (- (3602879701896397 / 2 ^ 55) / - (1 / 2)) = 3602879701896397 / 2 ^ 54"
    using f64_dyadic [of 3602879701896397 54] by simp
  have "ddiv64 (Fin (- (3602879701896397 / 2 ^ 55))) (Fin (- (1 / 2)))
          = fl64 (- (3602879701896397 / 2 ^ 55) / - (1 / 2))"
    by (simp add: ddiv64_def)
  also have "\<dots> = Fin (3602879701896397 / 2 ^ 54)"
    unfolding fl64_def q by simp
  finally show ?thesis unfolding dT den dneg.simps .
qed

theorem computeTTCCamera_NaN_iff_none_survives_witness:
  "computeTTCCamera
     [\<lparr>pt = \<lparr>Point2f.x = 0, Point2f.y = 0\<rparr>\<rparr>, \<lparr>pt = \<lparr>Point2f.x = 200, Point2f.y = 0\<rparr>\<rparr>]
     [\<lparr>pt = \<lparr>Point2f.x = 0, Point2f.y = 0\<rparr>\<rparr>, \<lparr>pt = \<lparr>Point2f.x = 50, Point2f.y = 0\<rparr>\<rparr>]
     [\<lparr>queryIdx = 0, trainIdx = 0, imgIdx = 0, distance = 1\<rparr>,
      \<lparr>queryIdx = 1, trainIdx = 1, imgIdx = 0, distance = 1\<rparr>] 10 = Inr NaN
   \<and> computeTTCCamera
     [\<lparr>pt = \<lparr>Point2f.x = 0, Point2f.y = 0\<rparr>\<rparr>, \<lparr>pt = \<lparr>Point2f.x = 200, Point2f.y = 0\<rparr>\<rparr>]
     [\<lparr>pt = \<lparr>Point2f.x = 0, Point2f.y = 0\<rparr>\<rparr>, \<lparr>pt = \<lparr>Point2f.x = 300, Point2f.y = 0\<rparr>\<rparr>]
     [\<lparr>queryIdx = 0, trainIdx = 0, imgIdx = 0, distance = 1\<rparr>,
      \<lparr>queryIdx = 1, trainIdx = 1, imgIdx = 0, distance = 1\<rparr>] 10
     = Inr (Fin (3602879701896397 / 2 ^ 54))"
proof -
  let ?kp = "[\<lparr>pt = \<lparr>Point2f.x = 0, Point2f.y = 0\<rparr>\<rparr>, \<lparr>pt = \<lparr>Point2f.x = 200, Point2f.y = 0\<rparr>\<rparr>]"
  let ?kc = "[\<lparr>pt = \<lparr>Point2f.x = 0, Point2f.y = 0\<rparr>\<rparr>, \<lparr>pt = \<lparr>Point2f.x = 300, Point2f.y = 0\<rparr>\<rparr>]"
  let ?kc' = "[\<lparr>pt = \<lparr>Point2f.x = 0, Point2f.y = 0\<rparr>\<rparr>, \<lparr>pt = \<lparr>Point2f.x = 50, Point2f.y = 0\<rparr>\<rparr>]"
  let ?ms = "[\<lparr>queryIdx = 0, trainIdx = 0, imgIdx = 0, distance = 1\<rparr>,
      \<lparr>queryIdx = 1, trainIdx = 1, imgIdx = 0, distance = 1\<rparr>]"
  have h1: "?ms \<noteq> []" by simp
  have h2: "indices_ok ?kp ?kc ?ms" "indices_ok ?kp ?kc' ?ms" by (simp_all add: indices_ok_def)
  have h3: "coords_ok ?kp" "coords_ok ?kc" "coords_ok ?kc'" by (simp_all add: coords_ok_def)
  have h5: "1 / 2 ^ 1022 \<le> \<bar>10 :: real\<bar>" by simp
  have h6: "\<bar>10 :: real\<bar> \<le> 2 ^ 1024" by simp
  from computeTTCCamera_NaN_iff_none_survives [OF h1 h2(2) h3(1) h3(3) h5 h6] no_ratio
  have a: "computeTTCCamera ?kp ?kc' ?ms 10 = Inr NaN" by blast
  from computeTTCCamera_NaN_iff_none_survives [OF h1 h2(1) h3(1) h3(2) h5 h6] one_ratio
  have "computeTTCCamera ?kp ?kc ?ms 10
          = Inr (ddiv64 (dneg (ddiv64 (Fin 1) (Fin 10))) (dsub64 (Fin 1) (Fin (3 / 2))))"
    by blast
  then have b: "computeTTCCamera ?kp ?kc ?ms 10 = Inr (Fin (3602879701896397 / 2 ^ 54))"
    by (simp only: one_ratio_formula)
  from a b show ?thesis by (rule conjI)
qed

text \<open>
  Fewer than two samples is not the guard: with the single surviving ratio 1.5 the
  estimator returns the double 0.2. On empty point vectors \<open>computeTTCLidar\<close> reads
  outside its vectors.
\<close>

theorem TTC_not_NaN_counterexample:
  "length (surviving_ratios
     [\<lparr>pt = \<lparr>Point2f.x = 0, Point2f.y = 0\<rparr>\<rparr>, \<lparr>pt = \<lparr>Point2f.x = 200, Point2f.y = 0\<rparr>\<rparr>]
     [\<lparr>pt = \<lparr>Point2f.x = 0, Point2f.y = 0\<rparr>\<rparr>, \<lparr>pt = \<lparr>Point2f.x = 300, Point2f.y = 0\<rparr>\<rparr>]
     [\<lparr>queryIdx = 0, trainIdx = 0, imgIdx = 0, distance = 1\<rparr>,
      \<lparr>queryIdx = 1, trainIdx = 1, imgIdx = 0, distance = 1\<rparr>]) < 2
   \<and> computeTTCCamera
     [\<lparr>pt = \<lparr>Point2f.x = 0, Point2f.y = 0\<rparr>\<rparr>, \<lparr>pt = \<lparr>Point2f.x = 200, Point2f.y = 0\<rparr>\<rparr>]
     [\<lparr>pt = \<lparr>Point2f.x = 0, Point2f.y = 0\<rparr>\<rparr>, \<lparr>pt = \<lparr>Point2f.x = 300, Point2f.y = 0\<rparr>\<rparr>]
     [\<lparr>queryIdx = 0, trainIdx = 0, imgIdx = 0, distance = 1\<rparr>,
      \<lparr>queryIdx = 1, trainIdx = 1, imgIdx = 0, distance = 1\<rparr>] 10
     = Inr (Fin (3602879701896397 / 2 ^ 54))
   \<and> computeTTCLidar [] [] 10 = Inl OutOfBounds"
proof -
  let ?kp = "[\<lparr>pt = \<lparr>Point2f.x = 0, Point2f.y = 0\<rparr>\<rparr>, \<lparr>pt = \<lparr>Point2f.x = 200, Point2f.y = 0\<rparr>\<rparr>]"
  let ?kc = "[\<lparr>pt = \<lparr>Point2f.x = 0, Point2f.y = 0\<rparr>\<rparr>, \<lparr>pt = \<lparr>Point2f.x = 300, Point2f.y = 0\<rparr>\<rparr>]"
  let ?ms = "[\<lparr>queryIdx = 0, trainIdx = 0, imgIdx = 0, distance = 1\<rparr>,
      \<lparr>queryIdx = 1, trainIdx = 1, imgIdx = 0, distance = 1\<rparr>]"
  have r: "length (surviving_ratios ?kp ?kc ?ms) < 2" by (simp only: one_ratio) simp
  have h1: "indices_ok ?kp ?kc ?ms" by (simp add: indices_ok_def)
  have h2: "coords_ok ?kp" "coords_ok ?kc" by (simp_all add: coords_ok_def)
  have h4: "surviving_ratios ?kp ?kc ?ms \<noteq> []" by (simp only: one_ratio) simp
  have t: "computeTTCCamera ?kp ?kc ?ms 10 = Inr (Fin (3602879701896397 / 2 ^ 54))"
    unfolding camera_value [OF h1 h2 h4] one_ratio median_double_single one_ratio_formula ..
  have l: "computeTTCLidar [] [] 10 = Inl OutOfBounds"
    by (simp add: computeTTCLidar_def medianX_def std_sort_x_def vec_at_def)
  from r t l show ?thesis by blast
qed

section \<open>The shrunk rectangle\<close>

lemma to_int_of_int [simp]: "to_int (of_int n) = n"
  by (simp add: to_int_def)

lemma to_int_mono: "a \<le> b \<Longrightarrow> to_int a \<le> to_int b"
proof -
  assume ab: "a \<le> b"
  consider "0 \<le> a" | "a < 0 \<and> 0 \<le> b" | "b < 0" by linarith
  then show ?thesis
  proof cases
    case 1
    with ab show ?thesis by (simp add: to_int_def floor_mono)
  next
    case 2
    then have "\<lceil>a\<rceil> \<le> 0" and "0 \<le> \<lfloor>b\<rfloor>" by (simp_all add: ceiling_le_zero)
    then have "\<lceil>a\<rceil> \<le> \<lfloor>b\<rfloor>" by linarith
    with 2 show ?thesis by (simp add: to_int_def)
  next
    case 3
    with ab show ?thesis by (simp add: to_int_def ceiling_mono)
  qed
qed

lemma f32_nonneg: "0 \<le> a \<Longrightarrow> 0 \<le> f32 a"
  unfolding f32_def by (rule round_to_sign)

lemma shrunk_corner_mono:
  "0 \<le> w \<Longrightarrow> s1 \<le> s2 \<Longrightarrow>
   to_int (f64 (f64 (of_int c) + f64 (f32 (s1 * f32 (of_int w)) / 2)))
     \<le> to_int (f64 (f64 (of_int c) + f64 (f32 (s2 * f32 (of_int w)) / 2)))"
proof -
  assume w: "0 \<le> w" and s: "s1 \<le> s2"
  from w have "0 \<le> f32 (of_int w)" by (intro f32_nonneg) simp
  with s have "s1 * f32 (of_int w) \<le> s2 * f32 (of_int w)" by (rule mult_right_mono)
  then have "f32 (s1 * f32 (of_int w)) / 2 \<le> f32 (s2 * f32 (of_int w)) / 2"
    by (simp add: f32_mono)
  then have "f64 (f32 (s1 * f32 (of_int w)) / 2) \<le> f64 (f32 (s2 * f32 (of_int w)) / 2)"
    by (rule f64_mono)
  then have "f64 (of_int c) + f64 (f32 (s1 * f32 (of_int w)) / 2)
               \<le> f64 (of_int c) + f64 (f32 (s2 * f32 (of_int w)) / 2)"
    by simp
  then show ?thesis by (intro to_int_mono f64_mono)
qed

lemma shrunk_size_mono:
  "0 \<le> w \<Longrightarrow> s1 \<le> s2 \<Longrightarrow>
   to_int (f32 (f32 (of_int w) * f32 (1 - s2))) \<le> to_int (f32 (f32 (of_int w) * f32 (1 - s1)))"
proof -
  assume w: "0 \<le> w" and s: "s1 \<le> s2"
  from w have fw: "0 \<le> f32 (of_int w)" by (intro f32_nonneg) simp
  from s have "f32 (1 - s2) \<le> f32 (1 - s1)" by (intro f32_mono) simp
  then have "f32 (of_int w) * f32 (1 - s2) \<le> f32 (of_int w) * f32 (1 - s1)"
    using fw by (rule mult_left_mono)
  then show ?thesis by (intro to_int_mono f32_mono)
qed

lemma shrunk_corner_zero:
  "\<bar>c\<bar> \<le> 2 ^ 53 \<Longrightarrow> to_int (f64 (f64 (of_int c) + f64 (f32 (0 * f32 (of_int w)) / 2))) = c"
  by (simp add: f64_int)

lemma shrunk_size_zero:
  "\<bar>w\<bar> \<le> 2 ^ 24 \<Longrightarrow> to_int (f32 (f32 (of_int w) * f32 (1 - 0))) = w"
  by (simp add: f32_int)

text \<open>
  The float next to 0.1 is \<open>13421773 / 2 ^ 27\<close>. The rectangle at (0, 0) of width and
  height 10 shrunk by it is the rectangle at (0, 0) of width and height 9: the product of
  the factor and the width rounds to 1, and the product for the new width rounds to 9.
\<close>

lemma smallerBox_tenth:
  "smallerBox (13421773 / 2 ^ 27) \<lparr>Rect.x = 0, Rect.y = 0, width = 10, height = 10\<rparr>
     = \<lparr>Rect.x = 0, Rect.y = 0, width = 9, height = 9\<rparr>"
proof -
  have a: "f32 (of_int 10) = 10"
    using f32_int [of 10] by simp
  have p: "f32 (13421773 / 2 ^ 27 * 10) = 1"
    using f32_eval_pos [of 0 "13421773 / 2 ^ 27 * 10"] by (simp add: rne_def)
  have h: "f64 (1 / 2) = 1 / 2"
    using f64_dyadic [of 1 1] by simp
  have c: "f32 (1 - 13421773 / 2 ^ 27) = 15099494 / 2 ^ 24"
    using f32_eval_neg [of 1 "1 - 13421773 / 2 ^ 27"] by (simp add: rne_def)
  have w: "f32 (10 * (15099494 / 2 ^ 24)) = 9"
    using f32_eval_pos [of 3 "10 * (15099494 / 2 ^ 24)"] by (simp add: rne_def)
  have x: "to_int (f64 (f64 (of_int 0) + f64 (f32 (13421773 / 2 ^ 27 * f32 (of_int 10)) / 2))) = 0"
    by (simp only: a p h of_int_0 f64_0 add_0_left) (simp add: to_int_def)
  have s: "to_int (f32 (f32 (of_int 10) * f32 (1 - 13421773 / 2 ^ 27))) = 9"
    by (simp only: a c w) (simp add: to_int_def)
  show ?thesis
    unfolding smallerBox_def by (simp only: Rect.simps x s)
qed

text \<open>
  Claim C8, amended. With the shrink factor 0 the shrunk rectangle is the original rectangle, for
  a corner of at most \<open>2 ^ 53\<close> and a size of at most \<open>2 ^ 24\<close> in absolute value (the
  integers a \<open>double\<close> and a \<open>float\<close> hold exactly). For a rectangle of non-negative size
  and two shrink factors \<open>s1 \<le> s2\<close> in \<open>[0, 1)\<close>, the corner of the rectangle shrunk by
  \<open>s1\<close> is not beyond the corner of the rectangle shrunk by \<open>s2\<close>, and its width and
  height are not smaller. The containment of a pixel is not monotonic in the shrink
  factor: corner and size are rounded and truncated one by one, so that the right and
  the lower edge can move outwards as the factor grows.
\<close>

theorem smallerBox_zero_and_edges:
  "(\<bar>Rect.x rc\<bar> \<le> 2 ^ 53 \<and> \<bar>Rect.y rc\<bar> \<le> 2 ^ 53 \<and> \<bar>width rc\<bar> \<le> 2 ^ 24 \<and> \<bar>height rc\<bar> \<le> 2 ^ 24
      \<longrightarrow> smallerBox 0 rc = rc)
   \<and> (0 \<le> width rc \<and> 0 \<le> height rc \<and> 0 \<le> s1 \<and> s1 \<le> s2 \<and> s2 < 1 \<longrightarrow>
        Rect.x (smallerBox s1 rc) \<le> Rect.x (smallerBox s2 rc)
      \<and> Rect.y (smallerBox s1 rc) \<le> Rect.y (smallerBox s2 rc)
      \<and> width (smallerBox s2 rc) \<le> width (smallerBox s1 rc)
      \<and> height (smallerBox s2 rc) \<le> height (smallerBox s1 rc))"
proof (intro conjI impI)
  assume a: "\<bar>Rect.x rc\<bar> \<le> 2 ^ 53 \<and> \<bar>Rect.y rc\<bar> \<le> 2 ^ 53 \<and> \<bar>width rc\<bar> \<le> 2 ^ 24 \<and> \<bar>height rc\<bar> \<le> 2 ^ 24"
  then have "smallerBox 0 rc
      = \<lparr>Rect.x = Rect.x rc, Rect.y = Rect.y rc, width = width rc, height = height rc\<rparr>"
    unfolding smallerBox_def
    by (simp only: shrunk_corner_zero shrunk_size_zero)
  then show "smallerBox 0 rc = rc" by simp
next
  assume a: "0 \<le> width rc \<and> 0 \<le> height rc \<and> 0 \<le> s1 \<and> s1 \<le> s2 \<and> s2 < 1"
  then show "Rect.x (smallerBox s1 rc) \<le> Rect.x (smallerBox s2 rc)"
    by (simp add: smallerBox_def shrunk_corner_mono)
  from a show "Rect.y (smallerBox s1 rc) \<le> Rect.y (smallerBox s2 rc)"
    by (simp add: smallerBox_def shrunk_corner_mono)
  from a show "width (smallerBox s2 rc) \<le> width (smallerBox s1 rc)"
    by (simp add: smallerBox_def shrunk_size_mono)
  from a show "height (smallerBox s2 rc) \<le> height (smallerBox s1 rc)"
    by (simp add: smallerBox_def shrunk_size_mono)
qed

text \<open>
  The rectangle at (0, 0) of width and height 4 and the factors 3/8 and 1/2: the shrunk
  rectangles are (0, 0, 2, 2) and (1, 1, 2, 2).
\<close>

lemma smallerBox_example:
  "smallerBox (3 / 8) \<lparr>Rect.x = 0, Rect.y = 0, width = 4, height = 4\<rparr>
     = \<lparr>Rect.x = 0, Rect.y = 0, width = 2, height = 2\<rparr>"
  "smallerBox (1 / 2) \<lparr>Rect.x = 0, Rect.y = 0, width = 4, height = 4\<rparr>
     = \<lparr>Rect.x = 1, Rect.y = 1, width = 2, height = 2\<rparr>"
proof -
  have e: "f32 (3 / 2) = 3 / 2" "f32 (5 / 8) = 5 / 8" "f32 (5 / 2) = 5 / 2" "f32 (1 / 2) = 1 / 2"
    using f32_dyadic [of 3 1] f32_dyadic [of 5 3] f32_dyadic [of 5 1] f32_dyadic [of 1 1]
    by simp_all
  have d: "f64 (3 / 4) = 3 / 4"
    using f64_dyadic [of 3 2] by simp
  show "smallerBox (3 / 8) \<lparr>Rect.x = 0, Rect.y = 0, width = 4, height = 4\<rparr>
     = \<lparr>Rect.x = 0, Rect.y = 0, width = 2, height = 2\<rparr>"
    by (simp add: smallerBox_def f32_numeral f64_numeral e d to_int_def)
  show "smallerBox (1 / 2) \<lparr>Rect.x = 0, Rect.y = 0, width = 4, height = 4\<rparr>
     = \<lparr>Rect.x = 1, Rect.y = 1, width = 2, height = 2\<rparr>"
    by (simp add: smallerBox_def f32_numeral f64_numeral e d to_int_def)
qed

theorem smallerBox_zero_and_edges_witness:
  "smallerBox 0 \<lparr>Rect.x = 0, Rect.y = 0, width = 4, height = 4\<rparr>
     = \<lparr>Rect.x = 0, Rect.y = 0, width = 4, height = 4\<rparr>
   \<and> Rect.x (smallerBox (3 / 8) \<lparr>Rect.x = 0, Rect.y = 0, width = 4, height = 4\<rparr>)
       \<le> Rect.x (smallerBox (1 / 2) \<lparr>Rect.x = 0, Rect.y = 0, width = 4, height = 4\<rparr>)
   \<and> Rect.y (smallerBox (3 / 8) \<lparr>Rect.x = 0, Rect.y = 0, width = 4, height = 4\<rparr>)
       \<le> Rect.y (smallerBox (1 / 2) \<lparr>Rect.x = 0, Rect.y = 0, width = 4, height = 4\<rparr>)
   \<and> width (smallerBox (1 / 2) \<lparr>Rect.x = 0, Rect.y = 0, width = 4, height = 4\<rparr>)
       \<le> width (smallerBox (3 / 8) \<lparr>Rect.x = 0, Rect.y = 0, width = 4, height = 4\<rparr>)
   \<and> height (smallerBox (1 / 2) \<lparr>Rect.x = 0, Rect.y = 0, width = 4, height = 4\<rparr>)
       \<le> height (smallerBox (3 / 8) \<lparr>Rect.x = 0, Rect.y = 0, width = 4, height = 4\<rparr>)"
  using smallerBox_zero_and_edges
          [of "\<lparr>Rect.x = 0, Rect.y = 0, width = 4, height = 4\<rparr>" "3 / 8" "1 / 2"]
  by simp

text \<open>
  Containment is not monotonic. The rectangle at (0, 0) of width and height 4 shrunk by
  1/2 contains the pixel (2, 2), and shrunk by the smaller factor 3/8 it does not. The
  rectangle at (- 3, - 3) of width and height 10 does not contain the pixel (7, 7), and
  shrunk by \<open>1 / 2 ^ 27\<close> it is the rectangle at (- 2, - 2) of width and height 10, which
  does: \<open>1 - shrinkFactor\<close> rounds to 1 and the corner is truncated towards zero.
\<close>

theorem smallerBox_not_monotone_counterexample:
  "(3 / 8 :: real) \<le> 1 / 2
   \<and> Rect_contains (smallerBox (1 / 2) \<lparr>Rect.x = 0, Rect.y = 0, width = 4, height = 4\<rparr>)
       \<lparr>Point.x = 2, Point.y = 2\<rparr>
   \<and> \<not> Rect_contains (smallerBox (3 / 8) \<lparr>Rect.x = 0, Rect.y = 0, width = 4, height = 4\<rparr>)
       \<lparr>Point.x = 2, Point.y = 2\<rparr>
   \<and> smallerBox (1 / 2 ^ 27) \<lparr>Rect.x = - 3, Rect.y = - 3, width = 10, height = 10\<rparr>
       = \<lparr>Rect.x = - 2, Rect.y = - 2, width = 10, height = 10\<rparr>
   \<and> Rect_contains (smallerBox (1 / 2 ^ 27) \<lparr>Rect.x = - 3, Rect.y = - 3, width = 10, height = 10\<rparr>)
       \<lparr>Point.x = 7, Point.y = 7\<rparr>
   \<and> \<not> Rect_contains \<lparr>Rect.x = - 3, Rect.y = - 3, width = 10, height = 10\<rparr>
       \<lparr>Point.x = 7, Point.y = 7\<rparr>"
proof -
  have e: "f32 (5 / 67108864) = 5 / 67108864"
    using f32_dyadic [of 5 26] by simp
  have d: "f64 (5 / 134217728) = 5 / 134217728" "f64 (- (402653179 / 134217728)) = - (402653179 / 134217728)"
    using f64_dyadic [of 5 27] f64_dyadic [of "- 402653179" 27] by simp_all
  have o: "f32 (134217727 / 134217728) = 1"
    using f32_below_one by simp
  have t: "smallerBox (1 / 2 ^ 27) \<lparr>Rect.x = - 3, Rect.y = - 3, width = 10, height = 10\<rparr>
       = \<lparr>Rect.x = - 2, Rect.y = - 2, width = 10, height = 10\<rparr>"
    using f64_int [of "- 3"]
    by (simp add: smallerBox_def f32_numeral f64_numeral e d o to_int_def)
  show ?thesis
    unfolding t smallerBox_example by (simp add: Rect_contains_def)
qed

section \<open>Lidar points and regions\<close>

lemma filter_upt_single:
  "(filter P [0 ..< n] = [i]) = (i < n \<and> P i \<and> (\<forall>j < n. P j \<longrightarrow> j = i))"
proof
  assume a: "filter P [0 ..< n] = [i]"
  then have "set (filter P [0 ..< n]) = {i}" by simp
  then show "i < n \<and> P i \<and> (\<forall>j < n. P j \<longrightarrow> j = i)" by auto
next
  assume a: "i < n \<and> P i \<and> (\<forall>j < n. P j \<longrightarrow> j = i)"
  then have s: "set (filter P [0 ..< n]) = set [i]" by auto
  have "sorted (filter P [0 ..< n])" "distinct (filter P [0 ..< n])"
    by (simp_all add: sorted_wrt_filter)
  moreover have "sorted [i]" "distinct [i]" by simp_all
  ultimately show "filter P [0 ..< n] = [i]"
    using s by (intro sorted_distinct_set_unique)
qed

lemma enclosingBoxes_roi:
  "map roi bbs' = map roi bbs \<Longrightarrow> enclosingBoxes s p bbs' = enclosingBoxes s p bbs"
proof -
  assume a: "map roi bbs' = map roi bbs"
  then have l: "length bbs' = length bbs" by (rule map_eq_imp_length_eq)
  have "roi (bbs' ! i) = roi (bbs ! i)" if "i < length bbs" for i
    using a l that by (metis nth_map)
  then show ?thesis
    unfolding enclosingBoxes_def l by (intro filter_cong) simp_all
qed

lemma map_update_same: "(map f xs)[k := f (xs ! k)] = map f xs"
  by (metis list_update_id map_update)

lemma point_roi:
  "map roi (clusterLidarWithROI_point s project bbs p) = map roi bbs"
  by (simp add: clusterLidarWithROI_point_def Let_def map_update map_update_same)

lemma point_boxID:
  "map boxID (clusterLidarWithROI_point s project bbs p) = map boxID bbs"
  by (simp add: clusterLidarWithROI_point_def Let_def map_update map_update_same)

lemma point_length:
  "length (clusterLidarWithROI_point s project bbs p) = length bbs"
  by (simp add: clusterLidarWithROI_point_def Let_def)

lemma enclosing_single_bound:
  "enclosingBoxes s p bbs = [i] \<Longrightarrow> i < length bbs"
  by (simp add: enclosingBoxes_def filter_upt_single)

lemma point_lidarPoints:
  assumes "i < length bbs"
  shows "lidarPoints (clusterLidarWithROI_point s project bbs p ! i) =
           lidarPoints (bbs ! i) @ (if enclosingBoxes s (project p) bbs = [i] then [p] else [])"
proof (cases "length (enclosingBoxes s (project p) bbs) = 1")
  case True
  then obtain k where k: "enclosingBoxes s (project p) bbs = [k]"
    by (cases "enclosingBoxes s (project p) bbs") simp_all
  then have "k < length bbs" by (rule enclosing_single_bound)
  then show ?thesis using assms k
    by (simp add: clusterLidarWithROI_point_def nth_list_update)
next
  case False
  then show ?thesis by (auto simp: clusterLidarWithROI_point_def Let_def)
qed

lemma cluster_fold:
  "length (foldl (clusterLidarWithROI_point s project) bbs pts) = length bbs
   \<and> map roi (foldl (clusterLidarWithROI_point s project) bbs pts) = map roi bbs
   \<and> map boxID (foldl (clusterLidarWithROI_point s project) bbs pts) = map boxID bbs
   \<and> (\<forall>i < length bbs.
        lidarPoints (foldl (clusterLidarWithROI_point s project) bbs pts ! i) =
          lidarPoints (bbs ! i) @ filter (\<lambda>p. enclosingBoxes s (project p) bbs = [i]) pts)"
proof (induction pts arbitrary: bbs)
  case Nil
  then show ?case by simp
next
  case (Cons p pts)
  let ?b = "clusterLidarWithROI_point s project bbs p"
  note ih = Cons.IH [of ?b]
  have enc: "enclosingBoxes s q ?b = enclosingBoxes s q bbs" for q
    by (rule enclosingBoxes_roi) (rule point_roi)
  show ?case
    using ih by (simp add: point_length point_roi point_boxID enc point_lidarPoints)
qed

text \<open>
  Claim C4. \<open>clusterLidarWithROI\<close> keeps the boxes and their rectangles, and appends to
  the point set of each box, in the order of the input, exactly the Lidar points whose
  projected pixel is contained by the shrunk rectangle of that box and of no other box:
  a point whose pixel is contained by no box or by two or more boxes is added to no box.
\<close>

theorem clusterLidarWithROI_unique_box:
  "length (clusterLidarWithROI bbs pts s project) = length bbs
   \<and> map roi (clusterLidarWithROI bbs pts s project) = map roi bbs
   \<and> (\<forall>i < length bbs.
        lidarPoints (clusterLidarWithROI bbs pts s project ! i) =
          lidarPoints (bbs ! i) @
          filter (\<lambda>p. Rect_contains (smallerBox s (roi (bbs ! i))) (project p) \<and>
                      (\<forall>j < length bbs.
                         Rect_contains (smallerBox s (roi (bbs ! j))) (project p) \<longrightarrow> j = i)) pts)"
proof -
  have eq: "(enclosingBoxes s (project p) bbs = [i]) =
        (Rect_contains (smallerBox s (roi (bbs ! i))) (project p) \<and>
         (\<forall>j < length bbs. Rect_contains (smallerBox s (roi (bbs ! j))) (project p) \<longrightarrow> j = i))"
    if "i < length bbs" for i p
    using that by (simp add: enclosingBoxes_def filter_upt_single)
  have "filter (\<lambda>p. enclosingBoxes s (project p) bbs = [i]) pts =
        filter (\<lambda>p. Rect_contains (smallerBox s (roi (bbs ! i))) (project p) \<and>
                      (\<forall>j < length bbs.
                         Rect_contains (smallerBox s (roi (bbs ! j))) (project p) \<longrightarrow> j = i)) pts"
    if "i < length bbs" for i
    by (rule filter_cong) (simp_all add: eq [OF that])
  then show ?thesis
    using cluster_fold [of s project bbs pts] by (simp add: clusterLidarWithROI_def)
qed

text \<open>
  Two overlapping boxes, shrink factor 1/4: the shrunk rectangles are [1, 8) x [1, 8) and
  [6, 13) x [1, 8). Of four points with the pixels (3, 3), (7, 3), (20, 3) and (12, 3)
  the first goes to the first box, the last to the second; the pixel (7, 3) lies in both
  and the pixel (20, 3) in none.
\<close>

theorem clusterLidarWithROI_unique_box_witness:
  "lidarPoints
     (clusterLidarWithROI
        [\<lparr>boxID = 0, roi = \<lparr>Rect.x = 0, Rect.y = 0, width = 10, height = 10\<rparr>,
          lidarPoints = [], kptMatches = []\<rparr>,
         \<lparr>boxID = 1, roi = \<lparr>Rect.x = 5, Rect.y = 0, width = 10, height = 10\<rparr>,
          lidarPoints = [], kptMatches = []\<rparr>]
        [\<lparr>LidarPoint.x = 8, LidarPoint.y = 3, z = 3, r = 0\<rparr>,
         \<lparr>LidarPoint.x = 8, LidarPoint.y = 7, z = 3, r = 0\<rparr>,
         \<lparr>LidarPoint.x = 8, LidarPoint.y = 20, z = 3, r = 0\<rparr>,
         \<lparr>LidarPoint.x = 8, LidarPoint.y = 12, z = 3, r = 0\<rparr>]
        (1 / 4) (\<lambda>p. \<lparr>Point.x = to_int (LidarPoint.y p), Point.y = to_int (z p)\<rparr>) ! 0)
     = [\<lparr>LidarPoint.x = 8, LidarPoint.y = 3, z = 3, r = 0\<rparr>]
   \<and> lidarPoints
     (clusterLidarWithROI
        [\<lparr>boxID = 0, roi = \<lparr>Rect.x = 0, Rect.y = 0, width = 10, height = 10\<rparr>,
          lidarPoints = [], kptMatches = []\<rparr>,
         \<lparr>boxID = 1, roi = \<lparr>Rect.x = 5, Rect.y = 0, width = 10, height = 10\<rparr>,
          lidarPoints = [], kptMatches = []\<rparr>]
        [\<lparr>LidarPoint.x = 8, LidarPoint.y = 3, z = 3, r = 0\<rparr>,
         \<lparr>LidarPoint.x = 8, LidarPoint.y = 7, z = 3, r = 0\<rparr>,
         \<lparr>LidarPoint.x = 8, LidarPoint.y = 20, z = 3, r = 0\<rparr>,
         \<lparr>LidarPoint.x = 8, LidarPoint.y = 12, z = 3, r = 0\<rparr>]
        (1 / 4) (\<lambda>p. \<lparr>Point.x = to_int (LidarPoint.y p), Point.y = to_int (z p)\<rparr>) ! 1)
     = [\<lparr>LidarPoint.x = 8, LidarPoint.y = 12, z = 3, r = 0\<rparr>]"
proof -
  let ?bbs = "[\<lparr>boxID = 0, roi = \<lparr>Rect.x = 0, Rect.y = 0, width = 10, height = 10\<rparr>,
          lidarPoints = [], kptMatches = []\<rparr>,
         \<lparr>boxID = 1, roi = \<lparr>Rect.x = 5, Rect.y = 0, width = 10, height = 10\<rparr>,
          lidarPoints = [], kptMatches = []\<rparr>]"
  let ?pts = "[\<lparr>LidarPoint.x = 8, LidarPoint.y = 3, z = 3, r = 0\<rparr>,
         \<lparr>LidarPoint.x = 8, LidarPoint.y = 7, z = 3, r = 0\<rparr>,
         \<lparr>LidarPoint.x = 8, LidarPoint.y = 20, z = 3, r = 0\<rparr>,
         \<lparr>LidarPoint.x = 8, LidarPoint.y = 12, z = 3, r = 0\<rparr>]"
  let ?proj = "\<lambda>p. \<lparr>Point.x = to_int (LidarPoint.y p), Point.y = to_int (z p)\<rparr>"
  have two: "(\<forall>j < length ?bbs. P j) = (P 0 \<and> P 1)" for P
    by (auto simp: less_Suc_eq)
  have sb0: "smallerBox (1 / 4) \<lparr>Rect.x = 0, Rect.y = 0, width = 10, height = 10\<rparr>
               = \<lparr>Rect.x = 1, Rect.y = 1, width = 7, height = 7\<rparr>"
    and sb1: "smallerBox (1 / 4) \<lparr>Rect.x = 5, Rect.y = 0, width = 10, height = 10\<rparr>
               = \<lparr>Rect.x = 6, Rect.y = 1, width = 7, height = 7\<rparr>"
  proof -
    have e: "f32 (5 / 2) = 5 / 2" "f32 (3 / 4) = 3 / 4" "f32 (15 / 2) = 15 / 2"
      using f32_dyadic [of 5 1] f32_dyadic [of 3 2] f32_dyadic [of 15 1] by simp_all
    have d: "f64 (5 / 4) = 5 / 4" "f64 (25 / 4) = 25 / 4"
      using f64_dyadic [of 5 2] f64_dyadic [of 25 2] by simp_all
    show "smallerBox (1 / 4) \<lparr>Rect.x = 0, Rect.y = 0, width = 10, height = 10\<rparr>
               = \<lparr>Rect.x = 1, Rect.y = 1, width = 7, height = 7\<rparr>"
      by (simp add: smallerBox_def f32_numeral f64_numeral e d to_int_def)
    show "smallerBox (1 / 4) \<lparr>Rect.x = 5, Rect.y = 0, width = 10, height = 10\<rparr>
               = \<lparr>Rect.x = 6, Rect.y = 1, width = 7, height = 7\<rparr>"
      by (simp add: smallerBox_def f32_numeral f64_numeral e d to_int_def)
  qed
  from clusterLidarWithROI_unique_box [of ?bbs ?pts "1 / 4" ?proj]
  have "\<forall>i < length ?bbs.
        lidarPoints (clusterLidarWithROI ?bbs ?pts (1 / 4) ?proj ! i) =
          lidarPoints (?bbs ! i) @
          filter (\<lambda>p. Rect_contains (smallerBox (1 / 4) (roi (?bbs ! i))) (?proj p) \<and>
                      (\<forall>j < length ?bbs.
                         Rect_contains (smallerBox (1 / 4) (roi (?bbs ! j))) (?proj p) \<longrightarrow> j = i)) ?pts"
    by blast
  then show ?thesis
    unfolding two by (simp add: sb0 sb1 Rect_contains_def to_int_def)
qed

section \<open>Correspondences of a region\<close>

lemma enclosed_kptMatches_update [simp]:
  "enclosed (bb\<lparr>kptMatches := ks\<rparr>) kc ms = enclosed bb kc ms"
  by (simp add: enclosed_def)

lemma clusterKptMatchesWithROI_loop_eq:
  "list_all (\<lambda>m. 0 \<le> trainIdx m \<and> trainIdx m < int (length kc)) ms \<Longrightarrow>
   clusterKptMatchesWithROI_loop bb kc ms sumDist =
     Inr (bb\<lparr>kptMatches := kptMatches bb @ enclosed bb kc ms\<rparr>,
          sumDist + sum_list (map distance (enclosed bb kc ms)))"
proof (induction ms arbitrary: bb sumDist)
  case Nil
  then show ?case by (simp add: enclosed_def)
next
  case (Cons match rest)
  from Cons.prems have okr: "list_all (\<lambda>m. 0 \<le> trainIdx m \<and> trainIdx m < int (length kc)) rest"
    and v: "vec_at kc (trainIdx match) = Inr (kc ! nat (trainIdx match))"
    by (simp_all add: vec_at_def)
  show ?case
  proof (cases "Rect_contains2f (roi bb) (pt (kc ! nat (trainIdx match)))")
    case True
    then have e: "enclosed bb kc (match # rest) = match # enclosed bb kc rest"
      by (simp add: enclosed_def)
    show ?thesis using True by (simp add: v Cons.IH [OF okr] e)
  next
    case False
    then have e: "enclosed bb kc (match # rest) = enclosed bb kc rest"
      by (simp add: enclosed_def)
    show ?thesis using False by (simp add: v Cons.IH [OF okr] e)
  qed
qed




section \<open>A region without correspondences\<close>

text \<open>
  Claim C7, amended. When the box has no correspondences before the call and no
  correspondence has its current keypoint inside the rectangle, the first loop leaves the
  box and the sum 0 as they are, the mean is the unguarded quotient 0 / 0, which is
  not-a-number, and \<open>clusterKptMatchesWithROI\<close> returns in the ordinary way with the box
  unchanged.
\<close>

theorem clusterKptMatchesWithROI_empty:
  assumes "kptMatches boundingBox = []"
    and "list_all (\<lambda>m. 0 \<le> trainIdx m \<and> trainIdx m < int (length kptsCurr)) ms"
    and "enclosed boundingBox kptsCurr ms = []"
  shows "clusterKptMatchesWithROI_loop boundingBox kptsCurr ms 0 = Inr (boundingBox, 0)
       \<and> meanDist 0 boundingBox = NaN
       \<and> clusterKptMatchesWithROI boundingBox kptsPrev kptsCurr ms = Inr boundingBox"
proof -
  have l: "clusterKptMatchesWithROI_loop boundingBox kptsCurr ms 0 = Inr (boundingBox, 0)"
    using assms(1) by (simp add: clusterKptMatchesWithROI_loop_eq [OF assms(2)] assms(3))
  have m: "meanDist 0 boundingBox = NaN"
    by (simp add: meanDist_def assms(1))
  have "clusterKptMatchesWithROI boundingBox kptsPrev kptsCurr ms = Inr boundingBox"
    using assms(1) by (simp add: clusterKptMatchesWithROI_def l)
  with l m show ?thesis by simp
qed

theorem clusterKptMatchesWithROI_empty_witness:
  "clusterKptMatchesWithROI
     \<lparr>boxID = 0, roi = \<lparr>Rect.x = 0, Rect.y = 0, width = 100, height = 100\<rparr>,
      lidarPoints = [], kptMatches = []\<rparr> []
     [\<lparr>pt = \<lparr>Point2f.x = 300, Point2f.y = 10\<rparr>\<rparr>]
     [\<lparr>queryIdx = 0, trainIdx = 0, imgIdx = 0, distance = 4\<rparr>,
      \<lparr>queryIdx = 0, trainIdx = 0, imgIdx = 0, distance = 6\<rparr>]
   = Inr \<lparr>boxID = 0, roi = \<lparr>Rect.x = 0, Rect.y = 0, width = 100, height = 100\<rparr>,
          lidarPoints = [], kptMatches = []\<rparr>"
proof -
  let ?bb = "\<lparr>boxID = 0, roi = \<lparr>Rect.x = 0, Rect.y = 0, width = 100, height = 100\<rparr>,
      lidarPoints = [], kptMatches = []\<rparr>"
  let ?kc = "[\<lparr>pt = \<lparr>Point2f.x = 300, Point2f.y = 10\<rparr>\<rparr>]"
  let ?ms = "[\<lparr>queryIdx = 0, trainIdx = 0, imgIdx = 0, distance = 4\<rparr>,
      \<lparr>queryIdx = 0, trainIdx = 0, imgIdx = 0, distance = 6\<rparr>]"
  have h1: "kptMatches ?bb = []" by simp
  have h2: "list_all (\<lambda>m. 0 \<le> trainIdx m \<and> trainIdx m < int (length ?kc)) ?ms" by simp
  have h3: "enclosed ?bb ?kc ?ms = []" by (simp add: enclosed_def Rect_contains2f_def)
  from clusterKptMatchesWithROI_empty [OF h1 h2 h3, of "[]"] show ?thesis by blast
qed

text \<open>
  A box whose rectangle encloses no current keypoint: the first loop pushes nothing, the
  mean of the empty set is computed and is not-a-number, and the call returns its box as
  any other call does.
\<close>

theorem clusterKptMatchesWithROI_unguarded_counterexample:
  "clusterKptMatchesWithROI_loop
     \<lparr>boxID = 0, roi = \<lparr>Rect.x = 0, Rect.y = 0, width = 100, height = 100\<rparr>,
      lidarPoints = [], kptMatches = []\<rparr>
     [\<lparr>pt = \<lparr>Point2f.x = 300, Point2f.y = 10\<rparr>\<rparr>]
     [\<lparr>queryIdx = 0, trainIdx = 0, imgIdx = 0, distance = 4\<rparr>] 0
   = Inr (\<lparr>boxID = 0, roi = \<lparr>Rect.x = 0, Rect.y = 0, width = 100, height = 100\<rparr>,
           lidarPoints = [], kptMatches = []\<rparr>, 0)
   \<and> meanDist 0 \<lparr>boxID = 0, roi = \<lparr>Rect.x = 0, Rect.y = 0, width = 100, height = 100\<rparr>,
                  lidarPoints = [], kptMatches = []\<rparr> = NaN
   \<and> clusterKptMatchesWithROI
     \<lparr>boxID = 0, roi = \<lparr>Rect.x = 0, Rect.y = 0, width = 100, height = 100\<rparr>,
      lidarPoints = [], kptMatches = []\<rparr> []
     [\<lparr>pt = \<lparr>Point2f.x = 300, Point2f.y = 10\<rparr>\<rparr>]
     [\<lparr>queryIdx = 0, trainIdx = 0, imgIdx = 0, distance = 4\<rparr>]
   = Inr \<lparr>boxID = 0, roi = \<lparr>Rect.x = 0, Rect.y = 0, width = 100, height = 100\<rparr>,
          lidarPoints = [], kptMatches = []\<rparr>"
  by (simp add: clusterKptMatchesWithROI_def meanDist_def vec_at_def Rect_contains2f_def)

section \<open>The previous box chosen for a current box\<close>

subsection \<open>The counting loop\<close>

lemma countMaxId_loop_Inr:
  "countMaxId_loop ps c = Inr c' \<Longrightarrow>
   length c' = length c
   \<and> (\<forall>j < length c. c' ! j = c ! j + int (length (filter (\<lambda>q. snd q = int j) ps)))
   \<and> (\<forall>q \<in> set ps. snd q = - 1 \<or> (0 \<le> snd q \<and> snd q < int (length c)))"
proof (induction ps arbitrary: c)
  case Nil
  then show ?case by simp
next
  case (Cons it rest)
  show ?case
  proof (cases "snd it = - 1")
    case True
    with Cons.prems have "countMaxId_loop rest c = Inr c'" by simp
    from Cons.IH [OF this] True show ?thesis by auto
  next
    case False
    with Cons.prems have inb: "0 \<le> snd it" "snd it < int (length c)"
      by (auto simp: vec_at_def split: if_splits)
    with False Cons.prems
    have run: "countMaxId_loop rest (c[nat (snd it) := c ! nat (snd it) + 1]) = Inr c'"
      by (simp add: vec_at_def)
    note ih = Cons.IH [OF run]
    have upd: "(c[nat (snd it) := c ! nat (snd it) + 1]) ! j =
        c ! j + (if snd it = int j then 1 else 0)" if "j < length c" for j
      using that inb by (auto simp: nth_list_update)
    show ?thesis
      using ih inb False by (auto simp: upd)
  qed
qed

subsection \<open>The first largest element\<close>

lemma max_element_loop_first_max:
  assumes "v = pre @ rest" and "first = length pre" and "largest < first"
    and "\<forall>j < first. v ! j \<le> v ! largest" and "\<forall>j < largest. v ! j < v ! largest"
  shows "max_element_loop v rest largest first < length v
       \<and> (\<forall>j < length v. v ! j \<le> v ! max_element_loop v rest largest first)
       \<and> (\<forall>j < max_element_loop v rest largest first.
             v ! j < v ! max_element_loop v rest largest first)"
  using assms
proof (induction rest arbitrary: pre largest first)
  case Nil
  then show ?case by simp
next
  case (Cons e rest)
  have e: "v ! first = e" using Cons.prems(1,2) by simp
  let ?l = "if v ! largest < e then first else largest"
  have a1: "v = (pre @ [e]) @ rest" using Cons.prems(1) by simp
  have a2: "Suc first = length (pre @ [e])" using Cons.prems(2) by simp
  have a3: "?l < Suc first" using Cons.prems(3) by simp
  have a4: "\<forall>j < Suc first. v ! j \<le> v ! ?l"
    using Cons.prems(4) e by (auto simp: less_Suc_eq intro: order_trans less_imp_le)
  have a5: "\<forall>j < ?l. v ! j < v ! ?l"
    using Cons.prems(4,5) e by (auto intro: le_less_trans)
  from Cons.IH [OF a1 a2 a3 a4 a5] show ?case by simp
qed

lemma max_element_first_max:
  assumes "v \<noteq> []"
  shows "max_element v < length v
       \<and> (\<forall>j < length v. v ! j \<le> v ! max_element v)
       \<and> (\<forall>j < max_element v. v ! j < v ! max_element v)"
proof -
  from assms obtain a w where v: "v = a # w" by (cases v) auto
  have "max_element_loop v w 0 1 < length v
       \<and> (\<forall>j < length v. v ! j \<le> v ! max_element_loop v w 0 1)
       \<and> (\<forall>j < max_element_loop v w 0 1. v ! j < v ! max_element_loop v w 0 1)"
    by (rule max_element_loop_first_max [where pre = "[a]"]) (simp_all add: v)
  then show ?thesis by (simp add: max_element_def v)
qed

subsection \<open>The recorded pairs of the first loop\<close>

lemma votes_prevMaxId_nonneg:
  "matchBoundingBoxes_votes prevFrame currFrame ms st = Inr st' \<Longrightarrow>
   0 \<le> prevMaxId st \<Longrightarrow> 0 \<le> prevMaxId st'"
proof (induction ms arbitrary: st)
  case Nil
  then show ?case by simp
next
  case (Cons it rest)
  from Cons.prems(1) obtain st1 where
    s: "matchBoundingBoxes_votes prevFrame currFrame rest st1 = Inr st'"
    and m: "prevMaxId st1 = max (prevMaxId st) (prevId st1)"
    by (auto simp: Let_def split: sum.splits)
  from m Cons.prems(2) have "0 \<le> prevMaxId st1" by simp
  from Cons.IH [OF s this] show ?case .
qed

lemma votes_for_filter:
  "votes_for recorded c p =
     length (filter (\<lambda>q. snd q = p) (filter (\<lambda>it. fst it = c) recorded))"
proof -
  have "(\<lambda>v. v = (c, p)) = (\<lambda>x. fst x = c \<and> snd x = p)" by auto
  then show ?thesis by (simp add: votes_for_def conj_commute)
qed

lemma pid_first_max:
  assumes run: "matchBoundingBoxes_pid recorded pm cid = Inr pid" and pm: "0 \<le> pm"
  shows "0 \<le> pid \<and> pid \<le> pm
       \<and> (\<forall>p. p \<noteq> - 1 \<longrightarrow> votes_for recorded cid p \<le> votes_for recorded cid pid)
       \<and> (\<forall>p. 0 \<le> p \<and> p < pid \<longrightarrow> votes_for recorded cid p < votes_for recorded cid pid)"
proof -
  let ?ps = "filter (\<lambda>it. fst it = cid) recorded"
  let ?c = "replicate (nat (pm + 1)) (0::int)"
  from run obtain c' where loop: "countMaxId_loop ?ps ?c = Inr c'"
    and pid: "pid = int (max_element c')"
    by (auto simp: matchBoundingBoxes_pid_def Let_def split: sum.splits)
  note all = countMaxId_loop_Inr [OF loop]
  have len: "length c' = nat (pm + 1)"
    using all by (simp only: length_replicate)
  have cnt: "c' ! j = int (length (filter (\<lambda>q. snd q = int j) ?ps))" if "j < nat (pm + 1)" for j
  proof -
    from all have "\<forall>j < length ?c. c' ! j = ?c ! j + int (length (filter (\<lambda>q. snd q = int j) ?ps))"
      by blast
    with that have "c' ! j = ?c ! j + int (length (filter (\<lambda>q. snd q = int j) ?ps))"
      by (simp only: length_replicate)
    with that show ?thesis by (simp only: nth_replicate)
  qed
  have rng: "snd q = - 1 \<or> (0 \<le> snd q \<and> snd q < int (nat (pm + 1)))" if "q \<in> set ?ps" for q
  proof -
    from all have "\<forall>q \<in> set ?ps. snd q = - 1 \<or> (0 \<le> snd q \<and> snd q < int (length ?c))"
      by blast
    with that show ?thesis by (simp only: length_replicate)
  qed
  have ne: "c' \<noteq> []" using len pm by auto
  from max_element_first_max [OF ne]
  have mx: "max_element c' < length c'"
    and ge: "\<And>j. j < length c' \<Longrightarrow> c' ! j \<le> c' ! max_element c'"
    and gt: "\<And>j. j < max_element c' \<Longrightarrow> c' ! j < c' ! max_element c'"
    by simp_all
  have vf: "int (votes_for recorded cid (int j)) = c' ! j" if "j < nat (pm + 1)" for j
    using cnt [OF that] by (simp add: votes_for_filter)
  have vpid: "int (votes_for recorded cid pid) = c' ! max_element c'"
    using vf [of "max_element c'"] mx len pid by simp
  have b: "0 \<le> pid \<and> pid \<le> pm" using mx len pid pm by auto
  have le: "votes_for recorded cid p \<le> votes_for recorded cid pid" if "p \<noteq> - 1" for p
  proof (cases "0 \<le> p \<and> p < int (nat (pm + 1))")
    case True
    then have j: "nat p < nat (pm + 1)" using pm by auto
    have "int (votes_for recorded cid p) = c' ! nat p" using vf [OF j] True by simp
    also have "\<dots> \<le> c' ! max_element c'" using ge [of "nat p"] j len by simp
    finally show ?thesis using vpid by simp
  next
    case False
    have "filter (\<lambda>q. snd q = p) ?ps = []"
    proof (rule ccontr)
      assume "filter (\<lambda>q. snd q = p) ?ps \<noteq> []"
      then obtain q where "q \<in> set ?ps" "snd q = p"
        by (metis (mono_tags, lifting) filter_False)
      with rng [of q] that False show False using pm by auto
    qed
    then show ?thesis by (simp add: votes_for_filter)
  qed
  have lt: "votes_for recorded cid p < votes_for recorded cid pid" if "0 \<le> p \<and> p < pid" for p
  proof -
    from that pid have j: "nat p < max_element c'" by auto
    with mx len have j': "nat p < nat (pm + 1)" by linarith
    have "int (votes_for recorded cid p) = c' ! nat p" using vf [OF j'] that by simp
    also have "\<dots> < c' ! max_element c'" by (rule gt [OF j])
    finally show ?thesis using vpid by simp
  qed
  from b le lt show ?thesis by blast
qed

lemma chosen_pid_properties:
  assumes "matchBoundingBoxes_votes prevFrame currFrame ms votes_init = Inr st"
    and "matchBoundingBoxes_pid (bboxIdMap st) (prevMaxId st) cid = Inr pid"
  shows "0 \<le> pid
       \<and> (\<forall>p. p \<noteq> - 1 \<longrightarrow>
             votes_for (bboxIdMap st) cid p \<le> votes_for (bboxIdMap st) cid pid)
       \<and> (\<forall>p. 0 \<le> p \<and> p < pid \<longrightarrow>
             votes_for (bboxIdMap st) cid p < votes_for (bboxIdMap st) cid pid)
       \<and> ((\<forall>p. p \<noteq> - 1 \<longrightarrow> votes_for (bboxIdMap st) cid p = 0) \<longrightarrow> pid = 0)
       \<and> (cid = 5 \<and> votes_for (bboxIdMap st) 5 2 = 3 \<and> votes_for (bboxIdMap st) 5 3 = 1 \<and>
          (\<forall>p. p \<noteq> 2 \<and> p \<noteq> 3 \<and> p \<noteq> - 1 \<longrightarrow> votes_for (bboxIdMap st) 5 p = 0) \<longrightarrow> pid = 2)
       \<and> matchBoundingBoxes_select (bboxIdMap st) (prevMaxId st) [cid] bbBestMatches =
            Inr (map_insert bbBestMatches pid cid)"
proof -
  have "0 \<le> prevMaxId st"
    by (rule votes_prevMaxId_nonneg [OF assms(1)]) (simp add: votes_init_def)
  from pid_first_max [OF assms(2) this]
  have nn: "0 \<le> pid"
    and le: "\<And>p. p \<noteq> - 1 \<Longrightarrow> votes_for (bboxIdMap st) cid p \<le> votes_for (bboxIdMap st) cid pid"
    and lt: "\<And>p. 0 \<le> p \<and> p < pid \<Longrightarrow>
                votes_for (bboxIdMap st) cid p < votes_for (bboxIdMap st) cid pid"
    by blast+
  have zero: "pid = 0" if z: "\<forall>p. p \<noteq> - 1 \<longrightarrow> votes_for (bboxIdMap st) cid p = 0"
  proof (rule ccontr)
    assume "pid \<noteq> 0"
    with nn have "0 \<le> (0::int) \<and> 0 < pid" by simp
    from lt [OF this] have "votes_for (bboxIdMap st) cid 0 < votes_for (bboxIdMap st) cid pid" .
    moreover from z nn have "votes_for (bboxIdMap st) cid pid = 0" by simp
    ultimately show False by simp
  qed
  have ex: "pid = 2"
    if e: "cid = 5 \<and> votes_for (bboxIdMap st) 5 2 = 3 \<and> votes_for (bboxIdMap st) 5 3 = 1 \<and>
          (\<forall>p. p \<noteq> 2 \<and> p \<noteq> 3 \<and> p \<noteq> - 1 \<longrightarrow> votes_for (bboxIdMap st) 5 p = 0)"
  proof (rule ccontr)
    assume n2: "pid \<noteq> 2"
    from le [of 2] e have three: "3 \<le> votes_for (bboxIdMap st) 5 pid" by simp
    show False
    proof (cases "pid = 3")
      case True
      with three e show False by simp
    next
      case False
      with n2 nn e have "votes_for (bboxIdMap st) 5 pid = 0" by simp
      with three show False by simp
    qed
  qed
  have ins: "matchBoundingBoxes_select (bboxIdMap st) (prevMaxId st) [cid] bbBestMatches =
            Inr (map_insert bbBestMatches pid cid)"
    by (simp add: assms(2))
  from nn le lt zero ex ins show ?thesis by blast
qed

section \<open>The id variables of the first loop\<close>

lemma firstBox_found:
  "firstBox bbs p i = (case found_id bbs p of Some j \<Rightarrow> j | None \<Rightarrow> i)"
  by (induction bbs) simp_all

lemma votes_append:
  "matchBoundingBoxes_votes prevFrame currFrame (ms @ ms') st =
     (case matchBoundingBoxes_votes prevFrame currFrame ms st of
        Inl e \<Rightarrow> Inl e
      | Inr st1 \<Rightarrow> matchBoundingBoxes_votes prevFrame currFrame ms' st1)"
  by (induction ms arbitrary: st) (simp_all add: Let_def split: sum.splits)

lemma recorded_spec_snoc:
  "recorded_spec prevFrame currFrame (ms @ [m]) =
     recorded_spec prevFrame currFrame ms @
       [(most_recent (foundCurr currFrame m # rev (map (foundCurr currFrame) ms)),
         most_recent (foundPrev prevFrame m # rev (map (foundPrev prevFrame) ms)))]"
  by (simp add: recorded_spec_def)

lemma votes_recorded:
  assumes "indices_ok (keypoints prevFrame) (keypoints currFrame) ms"
  shows "\<exists>st. matchBoundingBoxes_votes prevFrame currFrame ms votes_init = Inr st
            \<and> bboxIdMap st = recorded_spec prevFrame currFrame ms
            \<and> currId st = most_recent (rev (map (foundCurr currFrame) ms))
            \<and> prevId st = most_recent (rev (map (foundPrev prevFrame) ms))"
  using assms
proof (induction ms rule: rev_induct)
  case Nil
  then show ?case by (simp add: votes_init_def recorded_spec_def)
next
  case (snoc m ms)
  from snoc.prems have ok: "indices_ok (keypoints prevFrame) (keypoints currFrame) ms"
    and v1: "vec_at (keypoints currFrame) (trainIdx m) = Inr (keypoints currFrame ! nat (trainIdx m))"
    and v2: "vec_at (keypoints prevFrame) (queryIdx m) = Inr (keypoints prevFrame ! nat (queryIdx m))"
    by (simp_all add: indices_ok_def vec_at_def)
  from snoc.IH [OF ok] obtain st where
    run: "matchBoundingBoxes_votes prevFrame currFrame ms votes_init = Inr st"
    and rec: "bboxIdMap st = recorded_spec prevFrame currFrame ms"
    and c: "currId st = most_recent (rev (map (foundCurr currFrame) ms))"
    and p: "prevId st = most_recent (rev (map (foundPrev prevFrame) ms))"
    by blast
  show ?case
    by (simp add: votes_append run v1 v2 Let_def firstBox_found rec c p recorded_spec_snoc
          foundCurr_def [symmetric] foundPrev_def [symmetric])
qed

lemma recorded_spec_length: "length (recorded_spec prevFrame currFrame ms) = length ms"
  by (simp add: recorded_spec_def)

lemma recorded_spec_nth:
  "k < length ms \<Longrightarrow>
   recorded_spec prevFrame currFrame ms ! k =
     (most_recent (rev (map (foundCurr currFrame) (take (Suc k) ms))),
      most_recent (rev (map (foundPrev prevFrame) (take (Suc k) ms))))"
  by (simp add: recorded_spec_def)

lemma most_recent_take_Suc:
  "k < length ms \<Longrightarrow>
   most_recent (rev (map f (take (Suc k) ms))) =
     (case f (ms ! k) of Some i \<Rightarrow> i | None \<Rightarrow> most_recent (rev (map f (take k ms))))"
  by (simp add: take_Suc_conv_app_nth)

lemma most_recent_before:
  "k < length ms \<Longrightarrow>
   most_recent (rev (map (foundCurr currFrame) (take k ms))) =
     (if k = 0 then - 1 else fst (recorded_spec prevFrame currFrame ms ! (k - 1)))
   \<and> most_recent (rev (map (foundPrev prevFrame) (take k ms))) =
     (if k = 0 then - 1 else snd (recorded_spec prevFrame currFrame ms ! (k - 1)))"
proof (cases k)
  case 0
  then show ?thesis by simp
next
  case (Suc j)
  assume "k < length ms"
  with Suc have "j < length ms" by simp
  from recorded_spec_nth [OF this, of prevFrame currFrame] Suc show ?thesis by simp
qed

lemma recorded_step:
  assumes "k < length ms"
  shows "fst (recorded_spec prevFrame currFrame ms ! k) =
           (case foundCurr currFrame (ms ! k) of
              Some i \<Rightarrow> i
            | None \<Rightarrow> if k = 0 then - 1 else fst (recorded_spec prevFrame currFrame ms ! (k - 1)))"
    and "snd (recorded_spec prevFrame currFrame ms ! k) =
           (case foundPrev prevFrame (ms ! k) of
              Some i \<Rightarrow> i
            | None \<Rightarrow> if k = 0 then - 1 else snd (recorded_spec prevFrame currFrame ms ! (k - 1)))"
proof -
  note b = most_recent_before [OF assms, of currFrame prevFrame]
  show "fst (recorded_spec prevFrame currFrame ms ! k) =
           (case foundCurr currFrame (ms ! k) of
              Some i \<Rightarrow> i
            | None \<Rightarrow> if k = 0 then - 1 else fst (recorded_spec prevFrame currFrame ms ! (k - 1)))"
    unfolding recorded_spec_nth [OF assms] fst_conv most_recent_take_Suc [OF assms]
    using b by (simp split: option.splits)
  show "snd (recorded_spec prevFrame currFrame ms ! k) =
           (case foundPrev prevFrame (ms ! k) of
              Some i \<Rightarrow> i
            | None \<Rightarrow> if k = 0 then - 1 else snd (recorded_spec prevFrame currFrame ms ! (k - 1)))"
    unfolding recorded_spec_nth [OF assms] snd_conv most_recent_take_Suc [OF assms]
    using b by (simp split: option.splits)
qed

text \<open>
  Claim C10. When the indices of the correspondences lie inside the keypoint vectors,
  the first loop of \<open>matchBoundingBoxes\<close> runs through and records, for every
  correspondence, the ids found by the most recent correspondence up to it that found a
  box, \<open>- 1\<close> when none did: a correspondence whose keypoint lies in a box records the
  id of the first such box, a correspondence whose keypoint lies in no box records
  \<open>- 1\<close> when it is the first and otherwise the id recorded for the correspondence
  before it.
\<close>

theorem matchBoundingBoxes_ids_never_reset:
  assumes "indices_ok (keypoints prevFrame) (keypoints currFrame) ms"
  shows "map_sum id bboxIdMap (matchBoundingBoxes_votes prevFrame currFrame ms votes_init) =
           Inr (recorded_spec prevFrame currFrame ms)
       \<and> (\<forall>k < length ms.
             fst (recorded_spec prevFrame currFrame ms ! k) =
               (case foundCurr currFrame (ms ! k) of
                  Some i \<Rightarrow> i
                | None \<Rightarrow> if k = 0 then - 1 else fst (recorded_spec prevFrame currFrame ms ! (k - 1))))
       \<and> (\<forall>k < length ms.
             snd (recorded_spec prevFrame currFrame ms ! k) =
               (case foundPrev prevFrame (ms ! k) of
                  Some i \<Rightarrow> i
                | None \<Rightarrow> if k = 0 then - 1 else snd (recorded_spec prevFrame currFrame ms ! (k - 1))))"
proof (intro conjI allI impI)
  from votes_recorded [OF assms]
  show "map_sum id bboxIdMap (matchBoundingBoxes_votes prevFrame currFrame ms votes_init) =
           Inr (recorded_spec prevFrame currFrame ms)"
    by auto
next
  fix k assume k: "k < length ms"
  show "fst (recorded_spec prevFrame currFrame ms ! k) =
               (case foundCurr currFrame (ms ! k) of
                  Some i \<Rightarrow> i
                | None \<Rightarrow> if k = 0 then - 1 else fst (recorded_spec prevFrame currFrame ms ! (k - 1)))"
    by (rule recorded_step(1) [OF k])
next
  fix k assume k: "k < length ms"
  show "snd (recorded_spec prevFrame currFrame ms ! k) =
               (case foundPrev prevFrame (ms ! k) of
                  Some i \<Rightarrow> i
                | None \<Rightarrow> if k = 0 then - 1 else snd (recorded_spec prevFrame currFrame ms ! (k - 1)))"
    by (rule recorded_step(2) [OF k])
qed

text \<open>
  One box in each frame, with the ids 5 and 2, and three correspondences: the first and
  the third have both keypoints outside the boxes, the second has both inside. The first
  records the sentinels, the third the ids found by the second.
\<close>

theorem matchBoundingBoxes_ids_never_reset_witness:
  "map_sum id bboxIdMap
     (matchBoundingBoxes_votes
        \<lparr>keypoints = [\<lparr>pt = \<lparr>Point2f.x = 500, Point2f.y = 500\<rparr>\<rparr>,
                      \<lparr>pt = \<lparr>Point2f.x = 10, Point2f.y = 10\<rparr>\<rparr>],
         boundingBoxes = [\<lparr>boxID = 2, roi = \<lparr>Rect.x = 0, Rect.y = 0, width = 100, height = 100\<rparr>,
                            lidarPoints = [], kptMatches = []\<rparr>]\<rparr>
        \<lparr>keypoints = [\<lparr>pt = \<lparr>Point2f.x = 500, Point2f.y = 500\<rparr>\<rparr>,
                      \<lparr>pt = \<lparr>Point2f.x = 10, Point2f.y = 10\<rparr>\<rparr>],
         boundingBoxes = [\<lparr>boxID = 5, roi = \<lparr>Rect.x = 0, Rect.y = 0, width = 100, height = 100\<rparr>,
                            lidarPoints = [], kptMatches = []\<rparr>]\<rparr>
        [\<lparr>queryIdx = 0, trainIdx = 0, imgIdx = 0, distance = 1\<rparr>,
         \<lparr>queryIdx = 1, trainIdx = 1, imgIdx = 0, distance = 1\<rparr>,
         \<lparr>queryIdx = 0, trainIdx = 0, imgIdx = 0, distance = 1\<rparr>]
        votes_init)
   = Inr [(- 1, - 1), (5, 2), (5, 2)]"
proof -
  let ?prevFrame = "\<lparr>keypoints = [\<lparr>pt = \<lparr>Point2f.x = 500, Point2f.y = 500\<rparr>\<rparr>,
                      \<lparr>pt = \<lparr>Point2f.x = 10, Point2f.y = 10\<rparr>\<rparr>],
         boundingBoxes = [\<lparr>boxID = 2, roi = \<lparr>Rect.x = 0, Rect.y = 0, width = 100, height = 100\<rparr>,
                            lidarPoints = [], kptMatches = []\<rparr>]\<rparr>"
  let ?currFrame = "\<lparr>keypoints = [\<lparr>pt = \<lparr>Point2f.x = 500, Point2f.y = 500\<rparr>\<rparr>,
                      \<lparr>pt = \<lparr>Point2f.x = 10, Point2f.y = 10\<rparr>\<rparr>],
         boundingBoxes = [\<lparr>boxID = 5, roi = \<lparr>Rect.x = 0, Rect.y = 0, width = 100, height = 100\<rparr>,
                            lidarPoints = [], kptMatches = []\<rparr>]\<rparr>"
  let ?ms = "[\<lparr>queryIdx = 0, trainIdx = 0, imgIdx = 0, distance = 1\<rparr>,
         \<lparr>queryIdx = 1, trainIdx = 1, imgIdx = 0, distance = 1\<rparr>,
         \<lparr>queryIdx = 0, trainIdx = 0, imgIdx = 0, distance = 1\<rparr>]"
  have ok: "indices_ok (keypoints ?prevFrame) (keypoints ?currFrame) ?ms"
    by (simp add: indices_ok_def)
  have spec: "recorded_spec ?prevFrame ?currFrame ?ms = [(- 1, - 1), (5, 2), (5, 2)]"
    by (simp add: recorded_spec_def foundCurr_def foundPrev_def Rect_contains2f_def)
  from matchBoundingBoxes_ids_never_reset [OF ok] show ?thesis
    unfolding spec by blast
qed

section \<open>The choice of the box matcher\<close>

lemma firstBox_ge:
  "list_all (\<lambda>b. - 1 \<le> boxID b) bbs \<Longrightarrow> - 1 \<le> i \<Longrightarrow> - 1 \<le> firstBox bbs p i"
  by (induction bbs) simp_all

lemma votes_seconds:
  assumes ids: "list_all (\<lambda>b. - 1 \<le> boxID b) (boundingBoxes prevFrame)"
  shows "matchBoundingBoxes_votes prevFrame currFrame ms st = Inr st' \<Longrightarrow>
         - 1 \<le> prevId st \<Longrightarrow>
         (\<forall>q \<in> set (bboxIdMap st). - 1 \<le> snd q \<and> snd q \<le> prevMaxId st) \<Longrightarrow>
         (\<forall>q \<in> set (bboxIdMap st'). - 1 \<le> snd q \<and> snd q \<le> prevMaxId st')"
proof (induction ms arbitrary: st)
  case Nil
  then show ?case by simp
next
  case (Cons it rest)
  from Cons.prems(1) obtain ck pk :: KeyPoint where
    s: "matchBoundingBoxes_votes prevFrame currFrame rest
          \<lparr>bboxIdMap = bboxIdMap st @
             [(firstBox (boundingBoxes currFrame) (pt ck) (currId st),
               firstBox (boundingBoxes prevFrame) (pt pk) (prevId st))],
           currId = firstBox (boundingBoxes currFrame) (pt ck) (currId st),
           prevId = firstBox (boundingBoxes prevFrame) (pt pk) (prevId st),
           prevMaxId = max (prevMaxId st) (firstBox (boundingBoxes prevFrame) (pt pk) (prevId st))\<rparr>
        = Inr st'"
    by (auto simp: Let_def split: sum.splits)
  have g: "- 1 \<le> firstBox (boundingBoxes prevFrame) (pt pk) (prevId st)"
    by (rule firstBox_ge [OF ids Cons.prems(2)])
  show ?case
    by (rule Cons.IH [OF s]) (use g Cons.prems(3) in \<open>auto simp: max_def\<close>)
qed

lemma countMaxId_loop_returns:
  "\<forall>q \<in> set ps. snd q = - 1 \<or> (0 \<le> snd q \<and> snd q < int (length c)) \<Longrightarrow>
   \<exists>c'. countMaxId_loop ps c = Inr c'"
proof (induction ps arbitrary: c)
  case Nil
  then show ?case by simp
next
  case (Cons it rest)
  show ?case
  proof (cases "snd it = - 1")
    case True
    with Cons show ?thesis by simp
  next
    case False
    with Cons.prems have inb: "0 \<le> snd it" "snd it < int (length c)" by auto
    have "\<exists>c'. countMaxId_loop rest (c[nat (snd it) := c ! nat (snd it) + 1]) = Inr c'"
      by (rule Cons.IH) (use Cons.prems in simp)
    with False inb show ?thesis by (simp add: vec_at_def)
  qed
qed

lemma pid_returns:
  assumes "\<forall>q \<in> set recorded. - 1 \<le> snd q \<and> snd q \<le> pm" and "0 \<le> pm"
  shows "\<exists>pid. matchBoundingBoxes_pid recorded pm cid = Inr pid"
proof -
  have "\<forall>q \<in> set (filter (\<lambda>it. fst it = cid) recorded).
          snd q = - 1 \<or> (0 \<le> snd q \<and> snd q < int (length (replicate (nat (pm + 1)) (0::int))))"
    using assms by auto
  from countMaxId_loop_returns [OF this] show ?thesis
    by (auto simp: matchBoundingBoxes_pid_def)
qed

subsection \<open>The choice is the most named previous id\<close>

lemma votes_for_pos_iff: "(0 < votes_for recorded c p) = ((c, p) \<in> set recorded)"
  by (auto simp: votes_for_def filter_empty_conv)

lemma named_set:
  "set (filter (\<lambda>p. p \<noteq> - 1) (map snd (filter (\<lambda>v. fst v = c) recorded))) =
     {p. p \<noteq> - 1 \<and> (c, p) \<in> set recorded}"
  by force

lemma pid_is_best_previous:
  assumes run: "matchBoundingBoxes_pid recorded pm c = Inr pid" and pm: "0 \<le> pm"
    and sec: "\<forall>q \<in> set recorded. - 1 \<le> snd q"
  shows "pid = best_previous recorded c"
proof -
  let ?ps = "filter (\<lambda>p. p \<noteq> - 1) (map snd (filter (\<lambda>v. fst v = c) recorded))"
  let ?S = "set (filter (\<lambda>p. \<forall>q \<in> set ?ps. votes_for recorded c q \<le> votes_for recorded c p) ?ps)"
  from pid_first_max [OF run pm]
  have nn: "0 \<le> pid"
    and le: "\<And>p. p \<noteq> - 1 \<Longrightarrow> votes_for recorded c p \<le> votes_for recorded c pid"
    and lt: "\<And>p. 0 \<le> p \<and> p < pid \<Longrightarrow> votes_for recorded c p < votes_for recorded c pid"
    by blast+
  show ?thesis
  proof (cases "?ps = []")
    case True
    then have none: "\<And>p. p \<noteq> - 1 \<Longrightarrow> votes_for recorded c p = 0"
      using named_set [of c recorded] votes_for_pos_iff [of recorded c] by (metis (mono_tags, lifting) empty_iff empty_set mem_Collect_eq neq0_conv)
    have "pid = 0"
    proof (rule ccontr)
      assume "pid \<noteq> 0"
      with nn have "0 \<le> (0::int) \<and> 0 < pid" by simp
      from lt [OF this] none [of pid] nn show False by simp
    qed
    with True show ?thesis by (simp add: best_previous_def)
  next
    case False
    then obtain q where q: "q \<in> set ?ps" by (cases ?ps) auto
    then have qn: "q \<noteq> - 1" and qr: "(c, q) \<in> set recorded"
      using named_set [of c recorded] by auto
    from qr have "0 < votes_for recorded c q" by (simp add: votes_for_pos_iff)
    with le [OF qn] have "0 < votes_for recorded c pid" by simp
    then have "(c, pid) \<in> set recorded" by (simp add: votes_for_pos_iff)
    with nn have pin: "pid \<in> set ?ps" using named_set [of c recorded] by auto
    have inS: "pid \<in> ?S"
      using pin le named_set [of c recorded] by auto
    have low: "pid \<le> y" if "y \<in> ?S" for y
    proof (rule ccontr)
      assume "\<not> pid \<le> y"
      then have ylt: "y < pid" by simp
      from that have yps: "y \<in> set ?ps"
        and ymax: "\<forall>q \<in> set ?ps. votes_for recorded c q \<le> votes_for recorded c y"
        by auto
      from yps have "y \<noteq> - 1" "(c, y) \<in> set recorded" using named_set [of c recorded] by auto
      with sec have "0 \<le> y" by force
      with ylt lt [of y] have "votes_for recorded c y < votes_for recorded c pid" by simp
      moreover from ymax pin have "votes_for recorded c pid \<le> votes_for recorded c y" by blast
      ultimately show False by simp
    qed
    have "Min ?S = pid"
      by (rule Min_eqI) (use inS low in auto)
    with False show ?thesis by (simp add: best_previous_def Let_def)
  qed
qed

subsection \<open>The mapping that is returned\<close>

lemma select_first_chooser:
  "\<forall>c \<in> set cids. \<exists>p. matchBoundingBoxes_pid recorded pm c = Inr p \<Longrightarrow>
   matchBoundingBoxes_select recorded pm cids m0 =
     Inr (\<lambda>p. case m0 p of
                 Some c \<Rightarrow> Some c
               | None \<Rightarrow> find (\<lambda>c. matchBoundingBoxes_pid recorded pm c = Inr p) cids)"
proof (induction cids arbitrary: m0)
  case Nil
  have "m0 = (\<lambda>p. case m0 p of
                      Some c \<Rightarrow> Some c
                    | None \<Rightarrow> find (\<lambda>c. matchBoundingBoxes_pid recorded pm c = Inr p) [])"
    by (rule ext) (simp split: option.splits)
  then show ?case by (simp del: find.simps)
next
  case (Cons c cids)
  from Cons.prems obtain p where p: "matchBoundingBoxes_pid recorded pm c = Inr p" by auto
  from Cons.prems have rest: "\<forall>c \<in> set cids. \<exists>p. matchBoundingBoxes_pid recorded pm c = Inr p"
    by simp
  have "(\<lambda>q. case map_insert m0 p c q of
                 Some d \<Rightarrow> Some d
               | None \<Rightarrow> find (\<lambda>d. matchBoundingBoxes_pid recorded pm d = Inr q) cids) =
        (\<lambda>q. case m0 q of
                 Some d \<Rightarrow> Some d
               | None \<Rightarrow> find (\<lambda>d. matchBoundingBoxes_pid recorded pm d = Inr q) (c # cids))"
    by (rule ext) (auto simp: map_insert_def p split: option.splits)
  then show ?case by (simp add: p Cons.IH [OF rest])
qed

text \<open>
  Claim C3, amended. When the indices of the correspondences lie inside the keypoint
  vectors and no previous box has an id below \<open>- 1\<close>, \<open>matchBoundingBoxes\<close> returns, and
  its mapping keeps every entry it was given and maps every other previous id to the
  first current box, in the order of the boxes, whose chosen previous id it is. The
  chosen previous id of a current id is the previous id other than the sentinel that the
  most recorded pairs name for it, the lowest such id when several are named equally
  often, and 0 when the pairs name none; with three pairs naming 2 and one naming 3 for
  the current id 5 it is 2. A current box whose chosen previous id is a key already, or is
  chosen by an earlier current box, is in no pair of the mapping that is returned.
\<close>

theorem matchBoundingBoxes_first_chooser:
  assumes "indices_ok (keypoints prevFrame) (keypoints currFrame) ms"
    and "list_all (\<lambda>b. - 1 \<le> boxID b) (boundingBoxes prevFrame)"
  shows "matchBoundingBoxes ms bbBestMatches prevFrame currFrame =
           Inr (\<lambda>p. case bbBestMatches p of
                       Some c \<Rightarrow> Some c
                     | None \<Rightarrow>
                         find (\<lambda>c. best_previous (recorded_spec prevFrame currFrame ms) c = p)
                           (map boxID (boundingBoxes currFrame)))
       \<and> (\<forall>c. 0 \<le> best_previous (recorded_spec prevFrame currFrame ms) c
             \<and> (\<forall>p. p \<noteq> - 1 \<longrightarrow>
                   votes_for (recorded_spec prevFrame currFrame ms) c p
                     \<le> votes_for (recorded_spec prevFrame currFrame ms) c
                          (best_previous (recorded_spec prevFrame currFrame ms) c))
             \<and> (\<forall>p. 0 \<le> p \<and> p < best_previous (recorded_spec prevFrame currFrame ms) c \<longrightarrow>
                   votes_for (recorded_spec prevFrame currFrame ms) c p
                     < votes_for (recorded_spec prevFrame currFrame ms) c
                         (best_previous (recorded_spec prevFrame currFrame ms) c))
             \<and> ((\<forall>p. p \<noteq> - 1 \<longrightarrow> votes_for (recorded_spec prevFrame currFrame ms) c p = 0) \<longrightarrow>
                  best_previous (recorded_spec prevFrame currFrame ms) c = 0))
       \<and> (votes_for (recorded_spec prevFrame currFrame ms) 5 2 = 3 \<and>
          votes_for (recorded_spec prevFrame currFrame ms) 5 3 = 1 \<and>
          (\<forall>p. p \<noteq> 2 \<and> p \<noteq> 3 \<and> p \<noteq> - 1 \<longrightarrow>
               votes_for (recorded_spec prevFrame currFrame ms) 5 p = 0) \<longrightarrow>
            best_previous (recorded_spec prevFrame currFrame ms) 5 = 2)"
proof -
  let ?R = "recorded_spec prevFrame currFrame ms"
  from votes_recorded [OF assms(1)] obtain st where
    run: "matchBoundingBoxes_votes prevFrame currFrame ms votes_init = Inr st"
    and rec: "bboxIdMap st = ?R"
    by blast
  have sec: "\<forall>q \<in> set (bboxIdMap st). - 1 \<le> snd q \<and> snd q \<le> prevMaxId st"
    by (rule votes_seconds [OF assms(2) run]) (simp_all add: votes_init_def)
  have nn: "0 \<le> prevMaxId st"
    by (rule votes_prevMaxId_nonneg [OF run]) (simp add: votes_init_def)
  have pid: "matchBoundingBoxes_pid ?R (prevMaxId st) c = Inr (best_previous ?R c)" for c
  proof -
    from pid_returns [OF sec nn, of c] obtain pid where
      p: "matchBoundingBoxes_pid (bboxIdMap st) (prevMaxId st) c = Inr pid"
      by blast
    have "pid = best_previous (bboxIdMap st) c"
      by (rule pid_is_best_previous [OF p nn]) (use sec in blast)
    with p show ?thesis by (simp add: rec)
  qed
  have out: "matchBoundingBoxes ms bbBestMatches prevFrame currFrame =
           Inr (\<lambda>p. case bbBestMatches p of
                       Some c \<Rightarrow> Some c
                     | None \<Rightarrow> find (\<lambda>c. best_previous ?R c = p) (map boxID (boundingBoxes currFrame)))"
  proof -
    have "matchBoundingBoxes_select ?R (prevMaxId st) (map boxID (boundingBoxes currFrame))
            bbBestMatches =
          Inr (\<lambda>p. case bbBestMatches p of
                       Some c \<Rightarrow> Some c
                     | None \<Rightarrow> find (\<lambda>c. matchBoundingBoxes_pid ?R (prevMaxId st) c = Inr p)
                                 (map boxID (boundingBoxes currFrame)))"
      by (rule select_first_chooser) (simp add: pid)
    then show ?thesis
      by (simp add: matchBoundingBoxes_def run rec pid cong: option.case_cong)
  qed
  have props: "0 \<le> best_previous ?R c
             \<and> (\<forall>p. p \<noteq> - 1 \<longrightarrow> votes_for ?R c p \<le> votes_for ?R c (best_previous ?R c))
             \<and> (\<forall>p. 0 \<le> p \<and> p < best_previous ?R c \<longrightarrow>
                   votes_for ?R c p < votes_for ?R c (best_previous ?R c))
             \<and> ((\<forall>p. p \<noteq> - 1 \<longrightarrow> votes_for ?R c p = 0) \<longrightarrow> best_previous ?R c = 0)" for c
    using chosen_pid_properties [OF run, of c "best_previous ?R c" bbBestMatches] pid [of c]
    unfolding rec by blast
  have ex: "votes_for ?R 5 2 = 3 \<and> votes_for ?R 5 3 = 1 \<and>
          (\<forall>p. p \<noteq> 2 \<and> p \<noteq> 3 \<and> p \<noteq> - 1 \<longrightarrow> votes_for ?R 5 p = 0) \<longrightarrow> best_previous ?R 5 = 2"
    using chosen_pid_properties [OF run, of 5 "best_previous ?R 5" bbBestMatches] pid [of 5]
    unfolding rec by blast
  from out props ex show ?thesis by blast
qed

text \<open>
  One current box with the id 5 and two previous boxes with the ids 2 and 3: four
  correspondences inside the current box, three of them inside the previous box 2 and
  one inside the previous box 3. The mapping that is returned has the one pair of the
  previous id 2 and the current id 5.
\<close>

theorem matchBoundingBoxes_first_chooser_witness:
  "matchBoundingBoxes
     [\<lparr>queryIdx = 0, trainIdx = 0, imgIdx = 0, distance = 1\<rparr>,
      \<lparr>queryIdx = 1, trainIdx = 1, imgIdx = 0, distance = 1\<rparr>,
      \<lparr>queryIdx = 2, trainIdx = 2, imgIdx = 0, distance = 1\<rparr>,
      \<lparr>queryIdx = 3, trainIdx = 3, imgIdx = 0, distance = 1\<rparr>]
     Map.empty
     \<lparr>keypoints = [\<lparr>pt = \<lparr>Point2f.x = 10, Point2f.y = 10\<rparr>\<rparr>,
                   \<lparr>pt = \<lparr>Point2f.x = 20, Point2f.y = 10\<rparr>\<rparr>,
                   \<lparr>pt = \<lparr>Point2f.x = 30, Point2f.y = 10\<rparr>\<rparr>,
                   \<lparr>pt = \<lparr>Point2f.x = 60, Point2f.y = 10\<rparr>\<rparr>],
      boundingBoxes = [\<lparr>boxID = 2, roi = \<lparr>Rect.x = 0, Rect.y = 0, width = 50, height = 100\<rparr>,
                         lidarPoints = [], kptMatches = []\<rparr>,
                       \<lparr>boxID = 3, roi = \<lparr>Rect.x = 50, Rect.y = 0, width = 50, height = 100\<rparr>,
                         lidarPoints = [], kptMatches = []\<rparr>]\<rparr>
     \<lparr>keypoints = [\<lparr>pt = \<lparr>Point2f.x = 10, Point2f.y = 10\<rparr>\<rparr>,
                   \<lparr>pt = \<lparr>Point2f.x = 20, Point2f.y = 10\<rparr>\<rparr>,
                   \<lparr>pt = \<lparr>Point2f.x = 30, Point2f.y = 10\<rparr>\<rparr>,
                   \<lparr>pt = \<lparr>Point2f.x = 40, Point2f.y = 10\<rparr>\<rparr>],
      boundingBoxes = [\<lparr>boxID = 5, roi = \<lparr>Rect.x = 0, Rect.y = 0, width = 100, height = 100\<rparr>,
                         lidarPoints = [], kptMatches = []\<rparr>]\<rparr>
   = Inr (Map.empty(2 \<mapsto> 5))"
proof -
  let ?prevFrame = "\<lparr>keypoints = [\<lparr>pt = \<lparr>Point2f.x = 10, Point2f.y = 10\<rparr>\<rparr>,
                                   \<lparr>pt = \<lparr>Point2f.x = 20, Point2f.y = 10\<rparr>\<rparr>,
                                   \<lparr>pt = \<lparr>Point2f.x = 30, Point2f.y = 10\<rparr>\<rparr>,
                                   \<lparr>pt = \<lparr>Point2f.x = 60, Point2f.y = 10\<rparr>\<rparr>],
      boundingBoxes = [\<lparr>boxID = 2, roi = \<lparr>Rect.x = 0, Rect.y = 0, width = 50, height = 100\<rparr>,
                         lidarPoints = [], kptMatches = []\<rparr>,
                       \<lparr>boxID = 3, roi = \<lparr>Rect.x = 50, Rect.y = 0, width = 50, height = 100\<rparr>,
                         lidarPoints = [], kptMatches = []\<rparr>]\<rparr>"
  let ?currFrame = "\<lparr>keypoints = [\<lparr>pt = \<lparr>Point2f.x = 10, Point2f.y = 10\<rparr>\<rparr>,
                                   \<lparr>pt = \<lparr>Point2f.x = 20, Point2f.y = 10\<rparr>\<rparr>,
                                   \<lparr>pt = \<lparr>Point2f.x = 30, Point2f.y = 10\<rparr>\<rparr>,
                                   \<lparr>pt = \<lparr>Point2f.x = 40, Point2f.y = 10\<rparr>\<rparr>],
      boundingBoxes = [\<lparr>boxID = 5, roi = \<lparr>Rect.x = 0, Rect.y = 0, width = 100, height = 100\<rparr>,
                         lidarPoints = [], kptMatches = []\<rparr>]\<rparr>"
  let ?ms = "[\<lparr>queryIdx = 0, trainIdx = 0, imgIdx = 0, distance = 1\<rparr>,
              \<lparr>queryIdx = 1, trainIdx = 1, imgIdx = 0, distance = 1\<rparr>,
              \<lparr>queryIdx = 2, trainIdx = 2, imgIdx = 0, distance = 1\<rparr>,
              \<lparr>queryIdx = 3, trainIdx = 3, imgIdx = 0, distance = 1\<rparr>]"
  have ok: "indices_ok (keypoints ?prevFrame) (keypoints ?currFrame) ?ms"
    by (simp add: indices_ok_def)
  have ids: "list_all (\<lambda>b. - 1 \<le> boxID b) (boundingBoxes ?prevFrame)"
    by simp
  have spec: "recorded_spec ?prevFrame ?currFrame ?ms = [(5, 2), (5, 2), (5, 2), (5, 3)]"
    by (simp add: recorded_spec_def foundCurr_def foundPrev_def Rect_contains2f_def)
  have v: "votes_for [(5, 2), (5, 2), (5, 2), (5, 3)] 5 2 = 3"
    "votes_for [(5, 2), (5, 2), (5, 2), (5, 3)] 5 3 = 1"
    "\<forall>p. p \<noteq> 2 \<and> p \<noteq> 3 \<and> p \<noteq> - 1 \<longrightarrow> votes_for [(5, 2), (5, 2), (5, 2), (5, 3)] 5 p = 0"
    by (simp_all add: votes_for_def)
  note inst = matchBoundingBoxes_first_chooser [OF ok ids, of Map.empty, unfolded spec]
  from inst v have best: "best_previous [(5, 2), (5, 2), (5, 2), (5, 3)] 5 = 2" by blast
  have "(\<lambda>p. case Map.empty p of
               Some c \<Rightarrow> Some c
             | None \<Rightarrow> find (\<lambda>c. best_previous [(5, 2), (5, 2), (5, 2), (5, 3)] c = p)
                         (map boxID (boundingBoxes ?currFrame))) = Map.empty(2 \<mapsto> 5)"
    by (rule ext) (simp add: best)
  with inst show ?thesis by simp
qed

text \<open>
  Two current boxes with the ids 7 and 9 and no correspondence: both choose the previous
  id 0, and the mapping that is returned has the current box 7 only.
\<close>

theorem matchBoundingBoxes_unmatched_counterexample:
  "matchBoundingBoxes [] Map.empty \<lparr>keypoints = [], boundingBoxes = []\<rparr>
     \<lparr>keypoints = [],
      boundingBoxes = [\<lparr>boxID = 7, roi = \<lparr>Rect.x = 0, Rect.y = 0, width = 10, height = 10\<rparr>,
                         lidarPoints = [], kptMatches = []\<rparr>,
                       \<lparr>boxID = 9, roi = \<lparr>Rect.x = 20, Rect.y = 0, width = 10, height = 10\<rparr>,
                         lidarPoints = [], kptMatches = []\<rparr>]\<rparr>
     = Inr (Map.empty(0 \<mapsto> 7))
   \<and> matchBoundingBoxes_pid [] 0 9 = Inr 0
   \<and> 9 \<notin> ran (Map.empty(0 \<mapsto> (7::int)) :: int \<rightharpoonup> int)"
  by (simp add: matchBoundingBoxes_def votes_init_def matchBoundingBoxes_pid_def max_element_def
        map_insert_def)

end
